theory Spec2Isabelle
  imports Complex_Main "HOL-Library.Word" "HOL-Library.AList" "HOL-Library.Multiset"
begin

section \<open>unbound\_exporter: values, errors and the library calls of the scrape\<close>

text \<open>
  The development follows \<^verbatim>\<open>unbound_exporter.go\<close>: \<^verbatim>\<open>CollectFromReader\<close> reads the
  statistics of the resolver line by line, sends one constant metric per recognised
  line to the channel \<^verbatim>\<open>ch\<close>, accumulates the histogram lines and sends one histogram
  at the end of the stream; \<^verbatim>\<open>Collect\<close> adds the gauge \<^verbatim>\<open>unbound_up\<close>.

  The channel is the list of the metrics sent, in the order they were sent.
\<close>

type_synonym uint64 = "64 word"

datatype errkind = ErrSyntax | ErrRange

text \<open>
  The errors a scrape returns: the one built by \<^verbatim>\<open>fmt.Errorf\<close> in the loop (it carries
  the line that \<^verbatim>\<open>%q\<close> quotes), the \<^verbatim>\<open>*strconv.NumError\<close> of a failed conversion
  (fields \<^verbatim>\<open>Func\<close>, \<^verbatim>\<open>Num\<close>, \<^verbatim>\<open>Err\<close>) and an error of the connection or of the scanner.
\<close>

datatype error =
    NotKeyValue string
  | NumError string string errkind
  | IOError string

text \<open>A call returns, returns an error, or panics.\<close>

datatype 'a result = Ok 'a | Err error | Panic

subsection \<open>float64\<close>

text \<open>
  The program never looks inside a \<^verbatim>\<open>float64\<close>: it parses, subtracts, multiplies, adds,
  sorts and uses the values as map keys. The type \<open>'f\<close> stands for \<^verbatim>\<open>float64\<close> and its
  operations are the fields of a record that every function takes, so that each theorem
  holds for whatever the arithmetic rounds to. The order of \<open>'f\<close> is the order
  \<^verbatim>\<open>sort.Float64s\<close> sorts by, and equality of \<open>'f\<close> is equality of map keys (the keys of
  the program are parsed from unsigned digit strings, so they are never NaN and never
  a negative zero).

  \<^item> \<open>round64 q\<close>: the \<^verbatim>\<open>float64\<close> nearest to the rational \<open>q\<close>, for \<open>q\<close> in range;
  \<^item> \<open>pos_inf\<close>: \<^verbatim>\<open>+Inf\<close>;
  \<^item> \<open>parse_other s\<close>: value and error kind of \<^verbatim>\<open>strconv.ParseFloat(s, 64)\<close> on a string
    that is not of the shape digits, dot, digits (that shape is written out below);
  \<^item> \<open>fadd\<close>, \<open>fsub\<close>, \<open>fmul\<close>: \<^verbatim>\<open>+\<close>, \<^verbatim>\<open>-\<close>, \<^verbatim>\<open>*\<close> of \<^verbatim>\<open>float64\<close>.
\<close>

record 'f float64_ops =
  round64 :: "rat \<Rightarrow> 'f"
  pos_inf :: "'f"
  parse_other :: "string \<Rightarrow> 'f \<times> errkind option"
  fadd :: "'f \<Rightarrow> 'f \<Rightarrow> 'f"
  fsub :: "'f \<Rightarrow> 'f \<Rightarrow> 'f"
  fmul :: "'f \<Rightarrow> 'f \<Rightarrow> 'f"

subsection \<open>Characters and decimal digits\<close>

definition is_digit :: "char \<Rightarrow> bool" where
  "is_digit c = (48 \<le> (of_char c :: nat) \<and> (of_char c :: nat) \<le> 57)"

definition is_word :: "char \<Rightarrow> bool" where
  "is_word c = (is_digit c
      \<or> (65 \<le> (of_char c :: nat) \<and> (of_char c :: nat) \<le> 90)
      \<or> (of_char c :: nat) = 95
      \<or> (97 \<le> (of_char c :: nat) \<and> (of_char c :: nat) \<le> 122))"

definition digit_val :: "char \<Rightarrow> nat" where
  "digit_val c = of_char c - 48"

definition decimal :: "string \<Rightarrow> nat" where
  "decimal s = foldl (\<lambda>n c. 10 * n + digit_val c) 0 s"

subsection \<open>strconv\<close>

text \<open>
  \<^verbatim>\<open>strconv.ParseUint(s, 10, 64)\<close>, as the library runs it. The empty string is a syntax
  error. The loop then reads the bytes from the left with the value \<open>n\<close> read so far:
  a byte that is not a decimal digit is a syntax error (in base 10 a letter is a digit
  that is too large, and an underscore or a sign is not accepted), and a digit with which
  the value leaves \<^verbatim>\<open>uint64\<close> is a range error, returned with the largest \<^verbatim>\<open>uint64\<close>. The
  loop returns at the first byte at which one of the two happens. \<open>cutoff\<close> is
  \<^verbatim>\<open>maxUint64/10 + 1\<close> and \<open>maxVal\<close> is \<^verbatim>\<open>1<<64 - 1\<close>.
\<close>

definition cutoff :: uint64 where
  "cutoff = (- 1) div 10 + 1"

definition maxVal :: uint64 where
  "maxVal = - 1"

fun ParseUint_loop :: "string \<Rightarrow> uint64 \<Rightarrow> uint64 \<times> errkind option" where
  "ParseUint_loop [] n = (n, None)"
| "ParseUint_loop (c # s) n =
     (if \<not> is_digit c then (0, Some ErrSyntax)
      else if cutoff \<le> n then (maxVal, Some ErrRange)
      else
        (let n1 = n * 10 + of_nat (digit_val c) in
         if n1 < n * 10 \<or> maxVal < n1 then (maxVal, Some ErrRange)
         else ParseUint_loop s n1))"

definition ParseUint :: "string \<Rightarrow> uint64 \<times> error option" where
  "ParseUint s =
     (if s = [] then (0, Some (NumError ''ParseUint'' s ErrSyntax))
      else
        (case ParseUint_loop s 0 of
           (n, None) \<Rightarrow> (n, None)
         | (n, Some k) \<Rightarrow> (n, Some (NumError ''ParseUint'' s k))))"

text \<open>
  \<^verbatim>\<open>strconv.ParseFloat(s, 64)\<close>. On a string of the shape digits, dot, digits (the shape
  of the histogram bounds) the syntax is accepted: the result is the nearest
  \<^verbatim>\<open>float64\<close>, or \<^verbatim>\<open>+Inf\<close> with a range error when the decimal value is half a unit in
  the last place or more beyond the largest \<^verbatim>\<open>float64\<close>, that is at least
  \<open>2^1024 - 2^970\<close>. Every other string is left to \<open>parse_other\<close>. A failed conversion
  is a \<^verbatim>\<open>NumError\<close> naming the function and the string.
\<close>

definition dec_split :: "string \<Rightarrow> (string \<times> string) option" where
  "dec_split s =
     (let ip = takeWhile is_digit s; r = dropWhile is_digit s in
      if ip \<noteq> [] \<and> r \<noteq> [] \<and> hd r = CHR ''.'' \<and> tl r \<noteq> [] \<and> list_all is_digit (tl r)
      then Some (ip, tl r) else None)"

definition dec_value :: "string \<times> string \<Rightarrow> rat" where
  "dec_value d = of_nat (decimal (fst d)) + of_nat (decimal (snd d)) / 10 ^ length (snd d)"

definition overflow64 :: rat where
  "overflow64 = 2 ^ 1024 - 2 ^ 970"

definition ParseFloat :: "'f float64_ops \<Rightarrow> string \<Rightarrow> 'f \<times> error option" where
  "ParseFloat fl s =
     (case dec_split s of
        Some d \<Rightarrow>
          if dec_value d < overflow64 then (round64 fl (dec_value d), None)
          else (pos_inf fl, Some (NumError ''ParseFloat'' s ErrRange))
      | None \<Rightarrow>
          (case parse_other fl s of
             (v, None) \<Rightarrow> (v, None)
           | (v, Some k) \<Rightarrow> (v, Some (NumError ''ParseFloat'' s k))))"

text \<open>The conversion \<^verbatim>\<open>float64(value)\<close> of a \<^verbatim>\<open>uint64\<close> rounds to the nearest value.\<close>

definition float64 :: "'f float64_ops \<Rightarrow> uint64 \<Rightarrow> 'f" where
  "float64 fl v = round64 fl (of_nat (unat v))"

subsection \<open>strings.Split\<close>

text \<open>
  \<^verbatim>\<open>strings.Split(s, "=")\<close> cuts at every separator: one field more than there are
  separators, and the fields may be empty.
\<close>

fun Split :: "string \<Rightarrow> char \<Rightarrow> string list" where
  "Split [] sep = [[]]"
| "Split (c # s) sep =
     (if c = sep then [] # Split s sep
      else (c # hd (Split s sep)) # tl (Split s sep))"

subsection \<open>regexp\<close>

text \<open>
  The patterns of the program are all of one form: \<^verbatim>\<open>^\<close>, then literal characters and
  capture groups, then \<^verbatim>\<open>$\<close>; a group holds literal characters and repetitions
  \<^verbatim>\<open>\d+\<close>, \<^verbatim>\<open>[0-9]+\<close>, \<^verbatim>\<open>\w+\<close>, \<^verbatim>\<open>[\w]+\<close> of a character class. A \<open>Regexp\<close> is the list
  of pieces between the two anchors.
\<close>

datatype cclass = Digit | Word

datatype atom = Lit char | Plus cclass

datatype piece = Bare atom | Group "atom list"

type_synonym Regexp = "piece list"

definition str :: "string \<Rightarrow> Regexp" where
  "str s = map (\<lambda>c. Bare (Lit c)) s"

fun in_class :: "cclass \<Rightarrow> char \<Rightarrow> bool" where
  "in_class Digit c = is_digit c"
| "in_class Word c = is_word c"

text \<open>
  The matcher is a backtracking one: every function returns all the ways of matching
  a prefix of the text, each with the text that is left, the preferred way first (a
  repetition is greedy, so the longest first).
\<close>

fun plus_splits :: "(char \<Rightarrow> bool) \<Rightarrow> string \<Rightarrow> (string \<times> string) list" where
  "plus_splits P [] = []"
| "plus_splits P (x # s) =
     (if P x then map (\<lambda>(u, r). (x # u, r)) (plus_splits P s) @ [([x], s)] else [])"

fun match_atom :: "atom \<Rightarrow> string \<Rightarrow> (string \<times> string) list" where
  "match_atom (Lit c) [] = []"
| "match_atom (Lit c) (x # s) = (if x = c then [([c], s)] else [])"
| "match_atom (Plus k) s = plus_splits (in_class k) s"

primrec match_atoms :: "atom list \<Rightarrow> string \<Rightarrow> (string \<times> string) list" where
  "match_atoms [] s = [([], s)]"
| "match_atoms (a # as) s =
     concat (map (\<lambda>(u, r). map (\<lambda>(v, r'). (u @ v, r')) (match_atoms as r)) (match_atom a s))"

primrec match_pieces :: "Regexp \<Rightarrow> string \<Rightarrow> (string list \<times> string) list" where
  "match_pieces [] s = [([], s)]"
| "match_pieces (p # ps) s =
     (case p of
        Bare a \<Rightarrow> concat (map (\<lambda>(u, r). match_pieces ps r) (match_atom a s))
      | Group as \<Rightarrow>
          concat (map (\<lambda>(u, r). map (\<lambda>(caps, r'). (u # caps, r')) (match_pieces ps r))
                      (match_atoms as s)))"

text \<open>
  \<^verbatim>\<open>re.FindStringSubmatch(s)\<close> for an anchored pattern: \<^verbatim>\<open>nil\<close> when the text does not
  match, otherwise the whole match (the text itself) followed by the captures.
\<close>

definition FindStringSubmatch :: "Regexp \<Rightarrow> string \<Rightarrow> string list option" where
  "FindStringSubmatch re s =
     (case filter (\<lambda>(caps, r). r = []) (match_pieces re s) of
        [] \<Rightarrow> None
      | (caps, r) # _ \<Rightarrow> Some (s # caps))"

section \<open>The metrics of the exporter\<close>

subsection \<open>prometheus: descriptors and constant metrics\<close>

record Desc =
  fqName :: string
  helpText :: string
  variableLabels :: "string list"

datatype ValueType = CounterValue | GaugeValue

text \<open>
  What the channel carries: a constant metric (descriptor, kind, value, label values) or
  a constant histogram (descriptor, count, sum, buckets). The buckets are the Go map
  \<^verbatim>\<open>map[float64]uint64\<close>, kept as an association list with one entry per key and read
  with \<open>map_of\<close>.
\<close>

datatype 'f Metric =
    ConstMetric Desc ValueType 'f "string list"
  | ConstHistogram Desc uint64 'f "('f \<times> uint64) list"

definition BuildFQName :: "string \<Rightarrow> string \<Rightarrow> string \<Rightarrow> string" where
  "BuildFQName namespace subsystem name =
     (if name = [] then []
      else if namespace \<noteq> [] \<and> subsystem \<noteq> [] then namespace @ ''_'' @ subsystem @ ''_'' @ name
      else if namespace \<noteq> [] then namespace @ ''_'' @ name
      else if subsystem \<noteq> [] then subsystem @ ''_'' @ name
      else name)"

definition NewDesc :: "string \<Rightarrow> string \<Rightarrow> string list \<Rightarrow> Desc" where
  "NewDesc fq h labels = \<lparr>fqName = fq, helpText = h, variableLabels = labels\<rparr>"

text \<open>
  \<^verbatim>\<open>prometheus.MustNewConstMetric\<close> panics when the number of label values is not the
  number of labels of the descriptor: \<open>None\<close> is that panic. (Its other two reasons to
  panic do not arise here: the descriptors of the program are built from valid names, and
  a label value is a capture of \<^verbatim>\<open>\w+\<close> or \<^verbatim>\<open>\d+\<close>, which is ASCII.)
\<close>

definition MustNewConstMetric :: "Desc \<Rightarrow> ValueType \<Rightarrow> 'f \<Rightarrow> string list \<Rightarrow> 'f Metric option" where
  "MustNewConstMetric d t v labelValues =
     (if length labelValues \<noteq> length (variableLabels d) then None
      else Some (ConstMetric d t v labelValues))"

definition MustNewConstHistogram :: "Desc \<Rightarrow> uint64 \<Rightarrow> 'f \<Rightarrow> ('f \<times> uint64) list \<Rightarrow> 'f Metric" where
  "MustNewConstHistogram d c s buckets = ConstHistogram d c s buckets"

subsection \<open>The catalog\<close>

record unboundMetric =
  desc :: Desc
  valueType :: ValueType
  pattern :: Regexp

definition newUnboundMetric :: "string \<Rightarrow> string \<Rightarrow> ValueType \<Rightarrow> string list \<Rightarrow> Regexp \<Rightarrow> unboundMetric" where
  "newUnboundMetric name description vt labels pat =
     \<lparr>desc = NewDesc (BuildFQName ''unbound'' [] name) description labels,
      valueType = vt,
      pattern = pat\<rparr>"

definition unboundUpDesc :: Desc where
  "unboundUpDesc =
     NewDesc (BuildFQName ''unbound'' [] ''up'')
       (''Whether scraping Unbound'' @ [CHR 0x27] @ ''s metrics was successful.'') []"

definition unboundHistogram :: Desc where
  "unboundHistogram =
     NewDesc (BuildFQName ''unbound'' [] ''response_time_seconds'')
       ''Query response time in seconds.'' []"

text \<open>
  The patterns, in the order of the source. \<open>str ''num.query.tcp''\<close> is
  \<^verbatim>\<open>^num\.query\.tcp$\<close>, and \<open>str ''thread'' @ [Group [Plus Digit]] @ str ''.num.queries''\<close>
  is \<^verbatim>\<open>^thread(\d+)\.num\.queries$\<close>.
\<close>

definition unboundMetrics :: "unboundMetric list" where
  "unboundMetrics =
    [
     newUnboundMetric
       ''answer_rcodes_total''
       ''Total number of answers to queries, from cache or from recursion, by response code.''
       CounterValue [''rcode'']
       (str ''num.answer.rcode.'' @ [Group [Plus Word]]),
     newUnboundMetric
       ''answers_bogus''
       ''Total number of answers that were bogus.''
       CounterValue []
       (str ''num.answer.bogus''),
     newUnboundMetric
       ''answers_secure_total''
       ''Total number of answers that were secure.''
       CounterValue []
       (str ''num.answer.secure''),
     newUnboundMetric
       ''cache_hits_total''
       ''Total number of queries that were successfully answered using a cache lookup.''
       CounterValue [''thread'']
       (str ''thread'' @ [Group [Plus Digit]] @ str ''.num.cachehits''),
     newUnboundMetric
       ''cache_misses_total''
       ''Total number of cache queries that needed recursive processing.''
       CounterValue [''thread'']
       (str ''thread'' @ [Group [Plus Digit]] @ str ''.num.cachemiss''),
     newUnboundMetric
       ''memory_caches_bytes''
       ''Memory in bytes in use by caches.''
       GaugeValue [''cache'']
       (str ''mem.cache.'' @ [Group [Plus Word]]),
     newUnboundMetric
       ''memory_modules_bytes''
       ''Memory in bytes in use by modules.''
       GaugeValue [''module'']
       (str ''mem.mod.'' @ [Group [Plus Word]]),
     newUnboundMetric
       ''memory_sbrk_bytes''
       ''Memory in bytes allocated through sbrk.''
       GaugeValue []
       (str ''mem.total.sbrk''),
     newUnboundMetric
       ''prefetches_total''
       ''Total number of cache prefetches performed.''
       CounterValue [''thread'']
       (str ''thread'' @ [Group [Plus Digit]] @ str ''.num.prefetch''),
     newUnboundMetric
       ''queries_total''
       ''Total number of queries received.''
       CounterValue [''thread'']
       (str ''thread'' @ [Group [Plus Digit]] @ str ''.num.queries''),
     newUnboundMetric
       ''query_classes_total''
       ''Total number of queries with a given query class.''
       CounterValue [''class'']
       (str ''num.query.class.'' @ [Group [Plus Word]]),
     newUnboundMetric
       ''query_flags_total''
       ''Total number of queries that had a given flag set in the header.''
       CounterValue [''flag'']
       (str ''num.query.flags.'' @ [Group [Plus Word]]),
     newUnboundMetric
       ''query_ipv6_total''
       ''Total number of queries that were made using IPv6 towards the Unbound server.''
       CounterValue []
       (str ''num.query.ipv6''),
     newUnboundMetric
       ''query_opcodes_total''
       ''Total number of queries with a given query opcode.''
       CounterValue [''opcode'']
       (str ''num.query.opcode.'' @ [Group [Plus Word]]),
     newUnboundMetric
       ''query_edns_DO_total''
       ''Total number of queries that had an EDNS OPT record with the DO (DNSSEC OK) bit set present.''
       CounterValue []
       (str ''num.query.edns.DO''),
     newUnboundMetric
       ''query_edns_present_total''
       ''Total number of queries that had an EDNS OPT record present.''
       CounterValue []
       (str ''num.query.edns.present''),
     newUnboundMetric
       ''query_tcp_total''
       ''Total number of queries that were made using TCP towards the Unbound server.''
       CounterValue []
       (str ''num.query.tcp''),
     newUnboundMetric
       ''query_types_total''
       ''Total number of queries with a given query type.''
       CounterValue [''type'']
       (str ''num.query.type.'' @ [Group [Plus Word]]),
     newUnboundMetric
       ''request_list_current_all''
       ''Current size of the request list, including internally generated queries.''
       GaugeValue [''thread'']
       (str ''thread'' @ [Group [Plus Digit]] @ str ''.requestlist.current.all''),
     newUnboundMetric
       ''request_list_current_user''
       ''Current size of the request list, only counting the requests from client queries.''
       GaugeValue [''thread'']
       (str ''thread'' @ [Group [Plus Digit]] @ str ''.requestlist.current.user''),
     newUnboundMetric
       ''request_list_exceeded_total''
       ''Number of queries that were dropped because the request list was full.''
       CounterValue [''thread'']
       (str ''thread'' @ [Group [Plus Digit]] @ str ''.requestlist.exceeded''),
     newUnboundMetric
       ''request_list_overwritten_total''
       ''Total number of requests in the request list that were overwritten by newer entries.''
       CounterValue [''thread'']
       (str ''thread'' @ [Group [Plus Digit]] @ str ''.requestlist.overwritten''),
     newUnboundMetric
       ''recursive_replies_total''
       ''Total number of replies sent to queries that needed recursive processing.''
       CounterValue [''thread'']
       (str ''thread'' @ [Group [Plus Digit]] @ str ''.num.recursivereplies''),
     newUnboundMetric
       ''rrset_bogus_total''
       ''Total number of rrsets marked bogus by the validator.''
       CounterValue []
       (str ''num.rrset.bogus''),
     newUnboundMetric
       ''time_elapsed_seconds''
       ''Time since last statistics printout in seconds.''
       CounterValue []
       (str ''time.elapsed''),
     newUnboundMetric
       ''time_now_seconds''
       ''Current time in seconds since 1970.''
       GaugeValue []
       (str ''time.now''),
     newUnboundMetric
       ''time_up_seconds_total''
       ''Uptime since server boot in seconds.''
       CounterValue []
       (str ''time.up''),
     newUnboundMetric
       ''unwanted_queries_total''
       ''Total number of queries that were refused or dropped because they failed the access control settings.''
       CounterValue []
       (str ''unwanted.queries''),
     newUnboundMetric
       ''unwanted_replies_total''
       ''Total number of replies that were unwanted or unsolicited.''
       CounterValue []
       (str ''unwanted.replies'')
    ]"

text \<open>\<^verbatim>\<open>^histogram\.(\d+\.\d+)\.to\.(\d+\.\d+)$\<close>\<close>

definition histogramPattern :: Regexp where
  "histogramPattern =
     str ''histogram.'' @ [Group [Plus Digit, Lit CHR ''.'', Plus Digit]] @
     str ''.to.'' @ [Group [Plus Digit, Lit CHR ''.'', Plus Digit]]"

section \<open>The scrape\<close>

text \<open>
  The reader, as \<^verbatim>\<open>bufio.Scanner\<close> with \<^verbatim>\<open>bufio.ScanLines\<close> presents it: the successive
  values of \<^verbatim>\<open>scanner.Text()\<close> until \<^verbatim>\<open>scanner.Scan()\<close> is false, and what
  \<^verbatim>\<open>scanner.Err()\<close> is then (\<open>None\<close> at the end of the stream).
\<close>

record Reader =
  tokens :: "string list"
  scanErr :: "error option"

text \<open>The three variables of the accumulator.\<close>

record 'f histogram =
  histogramCount :: uint64
  histogramSum :: "'f"
  histogramBuckets :: "('f \<times> uint64) list"

text \<open>Reading a Go map at a key it does not hold gives the zero value.\<close>

definition bucket :: "('f \<times> uint64) list \<Rightarrow> 'f \<Rightarrow> uint64" where
  "bucket buckets k = (case map_of buckets k of None \<Rightarrow> 0 | Some v \<Rightarrow> v)"

text \<open>
  The inner loop \<^verbatim>\<open>for _, metric := range unboundMetrics\<close>: the metrics it sends (none
  or one), or the error it returns.
\<close>

fun range_metrics ::
  "'f float64_ops \<Rightarrow> unboundMetric list \<Rightarrow> string \<Rightarrow> string \<Rightarrow> 'f Metric list result" where
  "range_metrics fl [] key val = Ok []"
| "range_metrics fl (metric # rest) key val =
     (case FindStringSubmatch (pattern metric) key of
        None \<Rightarrow> range_metrics fl rest key val
      | Some matches \<Rightarrow>
          (case ParseFloat fl val of
             (v, Some err) \<Rightarrow> Err err
           | (v, None) \<Rightarrow>
               (case MustNewConstMetric (desc metric) (valueType metric) v (tl matches) of
                  None \<Rightarrow> Panic
                | Some m \<Rightarrow> Ok [m])))"

text \<open>
  The second half of the loop body: a key that matches the histogram pattern updates the
  accumulator (\<open>lo\<close> and \<open>hi\<close> are \<^verbatim>\<open>begin\<close> and \<^verbatim>\<open>end\<close>). The errors of the two
  \<^verbatim>\<open>ParseFloat\<close> calls are discarded, as in the source; indexing \<^verbatim>\<open>matches\<close> out of range
  would panic.
\<close>

definition histogram_line ::
  "'f float64_ops \<Rightarrow> 'f histogram \<Rightarrow> string \<Rightarrow> string \<Rightarrow> 'f histogram result" where
  "histogram_line fl h key val =
     (case FindStringSubmatch histogramPattern key of
        None \<Rightarrow> Ok h
      | Some matches \<Rightarrow>
          if length matches < 3 then Panic
          else
            (let lo = fst (ParseFloat fl (matches ! 1));
                 hi = fst (ParseFloat fl (matches ! 2))
             in case ParseUint val of
                  (v, Some err) \<Rightarrow> Err err
                | (v, None) \<Rightarrow>
                    Ok \<lparr>histogramCount = histogramCount h + v,
                        histogramSum = fadd fl (histogramSum h) (fmul fl (fsub fl hi lo) (float64 fl v)),
                        histogramBuckets = AList.update hi v (histogramBuckets h)\<rparr>))"

text \<open>
  The loop \<^verbatim>\<open>for scanner.Scan()\<close>: the metrics sent while it ran, and the accumulator at
  the end of the stream or the error that left the function.
\<close>

fun scan_loop ::
  "'f float64_ops \<Rightarrow> string list \<Rightarrow> 'f histogram \<Rightarrow> 'f Metric list \<times> 'f histogram result" where
  "scan_loop fl [] h = ([], Ok h)"
| "scan_loop fl (line # rest) h =
     (let fields = Split line CHR ''='' in
      if length fields \<noteq> 2 then ([], Err (NotKeyValue line))
      else
        (case range_metrics fl unboundMetrics (fields ! 0) (fields ! 1) of
           Err e \<Rightarrow> ([], Err e)
         | Panic \<Rightarrow> ([], Panic)
         | Ok sent \<Rightarrow>
             (case histogram_line fl h (fields ! 0) (fields ! 1) of
                Err e \<Rightarrow> (sent, Err e)
              | Panic \<Rightarrow> (sent, Panic)
              | Ok h' \<Rightarrow> (case scan_loop fl rest h' of (later, r) \<Rightarrow> (sent @ later, r)))))"

text \<open>
  The conversion to a cumulative histogram: \<^verbatim>\<open>for _, i := range keys\<close> over the sorted
  keys, with the running value \<^verbatim>\<open>prev\<close>.
\<close>

fun cumulate :: "'f list \<Rightarrow> uint64 \<Rightarrow> ('f \<times> uint64) list \<Rightarrow> ('f \<times> uint64) list" where
  "cumulate [] prev buckets = buckets"
| "cumulate (i # keys) prev buckets =
     cumulate keys (bucket buckets i + prev) (AList.update i (bucket buckets i + prev) buckets)"

definition cumulative :: "('f::linorder \<times> uint64) list \<Rightarrow> ('f \<times> uint64) list" where
  "cumulative buckets = cumulate (sort (map fst buckets)) 0 buckets"

definition CollectFromReader ::
  "('f::linorder) float64_ops \<Rightarrow> Reader \<Rightarrow> 'f Metric list \<times> unit result" where
  "CollectFromReader fl file =
     (case scan_loop fl (tokens file)
             \<lparr>histogramCount = 0, histogramSum = round64 fl 0, histogramBuckets = []\<rparr> of
        (sent, Err e) \<Rightarrow> (sent, Err e)
      | (sent, Panic) \<Rightarrow> (sent, Panic)
      | (sent, Ok h) \<Rightarrow>
          (sent @ [MustNewConstHistogram unboundHistogram (histogramCount h) (histogramSum h)
                     (cumulative (histogramBuckets h))],
           case scanErr file of None \<Rightarrow> Ok () | Some e \<Rightarrow> Err e))"

text \<open>
  \<^verbatim>\<open>CollectFromSocket\<close>: \<open>Inl e\<close> is a connection on which \<^verbatim>\<open>tls.Dial\<close> or \<^verbatim>\<open>conn.Write\<close>
  fails with \<open>e\<close>, \<open>Inr file\<close> one that is then read as \<open>file\<close>.
\<close>

definition CollectFromSocket ::
  "('f::linorder) float64_ops \<Rightarrow> error + Reader \<Rightarrow> 'f Metric list \<times> unit result" where
  "CollectFromSocket fl conn =
     (case conn of Inl e \<Rightarrow> ([], Err e) | Inr file \<Rightarrow> CollectFromReader fl file)"

text \<open>
  \<^verbatim>\<open>Collect\<close>: everything the scrape sent, then the gauge \<^verbatim>\<open>unbound_up\<close>. A panic below
  leaves \<^verbatim>\<open>Collect\<close> before the gauge is sent.
\<close>

definition up :: "'f float64_ops \<Rightarrow> rat \<Rightarrow> 'f Metric option" where
  "up fl x = MustNewConstMetric unboundUpDesc GaugeValue (round64 fl x) []"

definition Collect ::
  "('f::linorder) float64_ops \<Rightarrow> error + Reader \<Rightarrow> 'f Metric list \<times> unit result" where
  "Collect fl conn =
     (case CollectFromSocket fl conn of
        (sent, Panic) \<Rightarrow> (sent, Panic)
      | (sent, Ok u) \<Rightarrow> (case up fl 1 of None \<Rightarrow> (sent, Panic) | Some m \<Rightarrow> (sent @ [m], Ok ()))
      | (sent, Err e) \<Rightarrow> (case up fl 0 of None \<Rightarrow> (sent, Panic) | Some m \<Rightarrow> (sent @ [m], Ok ())))"

subsection \<open>An instance of the arithmetic\<close>

text \<open>
  The instance in which a value is the rational it stands for and nothing is rounded;
  \<open>2^1024\<close> stands for \<^verbatim>\<open>+Inf\<close>, and of the strings that are not digits, dot, digits only
  the unsigned integers are accepted. On values that \<^verbatim>\<open>float64\<close> represents exactly, with
  exact results, it computes what the program computes; the closed examples below use
  such values where the arithmetic matters.
\<close>

definition exact :: "rat float64_ops" where
  "exact =
     \<lparr>round64 = (\<lambda>q. q),
      pos_inf = 2 ^ 1024,
      parse_other =
        (\<lambda>s. if s \<noteq> [] \<and> list_all is_digit s
             then if of_nat (decimal s) < overflow64 then (of_nat (decimal s), None)
                  else (2 ^ 1024, Some ErrRange)
             else (0, Some ErrSyntax)),
      fadd = (\<lambda>x y. x + y),
      fsub = (\<lambda>x y. x - y),
      fmul = (\<lambda>x y. x * y)\<rparr>"

subsection \<open>Notions used in the statements\<close>

text \<open>
  The definitions of this subsection are not functions of the program. They name what
  the statements are about: the recognised histogram lines of a stream, read one by one
  without the loop, and what one such line adds to the accumulator. The lemmas relate
  them to the loop (\<open>scan_loop_accumulates\<close>).
\<close>

text \<open>The number of capture groups of a pattern (\<^verbatim>\<open>NumSubexp\<close>).\<close>

definition groups :: "Regexp \<Rightarrow> nat" where
  "groups re = length (filter (\<lambda>p. case p of Bare a \<Rightarrow> False | Group as \<Rightarrow> True) re)"

text \<open>A non-empty string of decimal digits.\<close>

definition digits :: "string \<Rightarrow> bool" where
  "digits s = (s \<noteq> [] \<and> list_all is_digit s)"

text \<open>
  A recognised histogram line, read by itself: a line \<^verbatim>\<open>key=value\<close> whose key matches the
  histogram pattern and whose value is a \<^verbatim>\<open>uint64\<close>, as the triple of its lower bound,
  its upper bound and its count.
\<close>

definition bucket_line :: "'f float64_ops \<Rightarrow> string \<Rightarrow> ('f \<times> 'f \<times> uint64) option" where
  "bucket_line fl line =
     (case Split line CHR ''='' of
        [key, val] \<Rightarrow>
          (case FindStringSubmatch histogramPattern key of
             None \<Rightarrow> None
           | Some matches \<Rightarrow>
               (case ParseUint val of
                  (v, Some e) \<Rightarrow> None
                | (v, None) \<Rightarrow>
                    Some (fst (ParseFloat fl (matches ! 1)), fst (ParseFloat fl (matches ! 2)), v)))
      | _ \<Rightarrow> None)"

definition recognised :: "'f float64_ops \<Rightarrow> string list \<Rightarrow> ('f \<times> 'f \<times> uint64) list" where
  "recognised fl lines = List.map_filter (bucket_line fl) lines"

definition upper_bound :: "'f \<times> 'f \<times> uint64 \<Rightarrow> 'f" where
  "upper_bound t = fst (snd t)"

definition observations :: "'f \<times> 'f \<times> uint64 \<Rightarrow> uint64" where
  "observations t = snd (snd t)"

text \<open>What one recognised line adds to the sum: \<^verbatim>\<open>(end - begin) * float64(value)\<close>.\<close>

definition contribution :: "'f float64_ops \<Rightarrow> 'f \<times> 'f \<times> uint64 \<Rightarrow> 'f" where
  "contribution fl t = fmul fl (fsub fl (upper_bound t) (fst t)) (float64 fl (observations t))"

text \<open>The accumulator after one more recognised line.\<close>

definition observe :: "'f float64_ops \<Rightarrow> 'f histogram \<Rightarrow> 'f \<times> 'f \<times> uint64 \<Rightarrow> 'f histogram" where
  "observe fl h t =
     \<lparr>histogramCount = histogramCount h + observations t,
      histogramSum = fadd fl (histogramSum h) (contribution fl t),
      histogramBuckets = AList.update (upper_bound t) (observations t) (histogramBuckets h)\<rparr>"

text \<open>The accumulator before the first line.\<close>

definition start :: "'f float64_ops \<Rightarrow> 'f histogram" where
  "start fl = \<lparr>histogramCount = 0, histogramSum = round64 fl 0, histogramBuckets = []\<rparr>"

section \<open>Properties of the library models\<close>

subsection \<open>strings.Split\<close>

lemma Split_not_Nil [simp]: "Split s c \<noteq> []"
  by (induction s) auto

lemma length_Split: "length (Split s c) = Suc (count_list s c)"
proof (induction s)
  case Nil
  show ?case by simp
next
  case (Cons x s)
  have "length (tl (Split s c)) = count_list s c"
    using Cons by simp
  then show ?case using Cons by simp
qed

lemma Split_no_sep: "c \<notin> set s \<Longrightarrow> Split s c = [s]"
  by (induction s) auto

lemma Split_at_sep: "c \<notin> set k \<Longrightarrow> Split (k @ c # v) c = k # Split v c"
  by (induction k) auto

lemma count_list_1_decomp:
  assumes "count_list s c = 1"
  shows "s = takeWhile (\<lambda>x. x \<noteq> c) s @ c # tl (dropWhile (\<lambda>x. x \<noteq> c) s)
         \<and> c \<notin> set (takeWhile (\<lambda>x. x \<noteq> c) s) \<and> c \<notin> set (tl (dropWhile (\<lambda>x. x \<noteq> c) s))"
  using assms
proof (induction s)
  case Nil
  then show ?case by simp
next
  case (Cons x s)
  show ?case
  proof (cases "x = c")
    case True
    with Cons.prems have "count_list s c = 0" by simp
    then have "c \<notin> set s" by (simp add: count_list_0_iff)
    with True show ?thesis by simp
  next
    case False
    with Cons show ?thesis by simp
  qed
qed

lemma Split_two:
  assumes "count_list s c = 1"
  shows "Split s c = [takeWhile (\<lambda>x. x \<noteq> c) s, tl (dropWhile (\<lambda>x. x \<noteq> c) s)]"
proof -
  let ?k = "takeWhile (\<lambda>x. x \<noteq> c) s" and ?v = "tl (dropWhile (\<lambda>x. x \<noteq> c) s)"
  from count_list_1_decomp [OF assms]
  have s: "s = ?k @ c # ?v" and k: "c \<notin> set ?k" and v: "c \<notin> set ?v" by auto
  have "Split (?k @ c # ?v) c = ?k # Split ?v c" using k by (rule Split_at_sep)
  also have "Split ?v c = [?v]" using v by (rule Split_no_sep)
  finally show ?thesis using s by simp
qed

text \<open>The equation by which \<open>Split\<close> is evaluated: one recursive call.\<close>

lemma Split_Cons:
  "Split (c # s) sep =
     (if c = sep then [] # Split s sep else (case Split s sep of x # xs \<Rightarrow> (c # x) # xs))"
  by (cases "Split s sep") simp_all

declare Split.simps(2) [simp del]

declare Split_Cons [simp]

lemma length_2: "length xs = 2 \<longleftrightarrow> xs = [xs ! 0, xs ! 1]"
proof
  assume "length xs = 2"
  then obtain a b where "xs = [a, b]"
    by (metis (no_types, opaque_lifting) Suc_length_conv length_0_conv numeral_2_eq_2)
  then show "xs = [xs ! 0, xs ! 1]" by simp
next
  assume "xs = [xs ! 0, xs ! 1]"
  then have "length xs = length [xs ! 0, xs ! 1]" by simp
  then show "length xs = 2" by simp
qed

subsection \<open>The matcher\<close>

text \<open>
  The matcher returns as many captures as the pattern has groups; the first complete
  match decides, and a match that is the only one is the one found. Membership in the
  lists of partial matches is the usual meaning of the pieces of a pattern.
\<close>

lemma match_pieces_captures:
  "(caps, r) \<in> set (match_pieces ps s) \<Longrightarrow> length caps = groups ps"
proof (induction ps arbitrary: s caps r)
  case Nil
  then show ?case by (simp add: groups_def)
next
  case (Cons p ps)
  show ?case
  proof (cases p)
    case (Bare a)
    with Cons.prems obtain u r' where "(caps, r) \<in> set (match_pieces ps r')" by auto
    then have "length caps = groups ps" by (rule Cons.IH)
    with Bare show ?thesis by (simp add: groups_def)
  next
    case (Group as)
    with Cons.prems obtain u r' caps' where "caps = u # caps'" "(caps', r) \<in> set (match_pieces ps r')"
      by auto
    then show ?thesis using Cons.IH Group by (simp add: groups_def)
  qed
qed

lemma FindStringSubmatch_Some:
  assumes "FindStringSubmatch re s = Some ms"
  shows "\<exists>caps. ms = s # caps \<and> length caps = groups re \<and> (caps, []) \<in> set (match_pieces re s)"
proof -
  from assms obtain caps r rest where f: "filter (\<lambda>(caps, r). r = []) (match_pieces re s) = (caps, r) # rest"
    and ms: "ms = s # caps"
    by (auto simp: FindStringSubmatch_def split: list.splits)
  have "(caps, r) \<in> set (filter (\<lambda>(caps, r). r = []) (match_pieces re s))"
    by (simp add: f)
  then have "(caps, []) \<in> set (match_pieces re s)" by auto
  with ms show ?thesis by (auto dest: match_pieces_captures)
qed

lemma FindStringSubmatch_None:
  "FindStringSubmatch re s = None \<longleftrightarrow> (\<forall>caps. (caps, []) \<notin> set (match_pieces re s))"
proof -
  have "FindStringSubmatch re s = None \<longleftrightarrow> filter (\<lambda>(caps, r). r = []) (match_pieces re s) = []"
    by (auto simp: FindStringSubmatch_def split: list.splits)
  also have "\<dots> \<longleftrightarrow> (\<forall>caps. (caps, []) \<notin> set (match_pieces re s))"
    by (auto simp: filter_empty_conv)
  finally show ?thesis .
qed

lemma FindStringSubmatch_unique:
  assumes "(caps, []) \<in> set (match_pieces re s)"
    and "\<And>caps'. (caps', []) \<in> set (match_pieces re s) \<Longrightarrow> caps' = caps"
  shows "FindStringSubmatch re s = Some (s # caps)"
proof (cases "FindStringSubmatch re s")
  case None
  with assms(1) show ?thesis by (simp add: FindStringSubmatch_None)
next
  case (Some ms)
  from FindStringSubmatch_Some [OF this] assms(2) Some show ?thesis by auto
qed

lemma match_pieces_str:
  "match_pieces (str l @ ps) s =
     (if take (length l) s = l then match_pieces ps (drop (length l) s) else [])"
proof (induction l arbitrary: s)
  case Nil
  show ?case by (simp add: str_def)
next
  case (Cons c l)
  have IH: "\<And>s. match_pieces (map (\<lambda>c. Bare (Lit c)) l @ ps) s =
     (if take (length l) s = l then match_pieces ps (drop (length l) s) else [])"
    using Cons by (simp add: str_def)
  show ?case
    by (cases s) (simp_all add: str_def IH)
qed

lemma first_lit_mismatch:
  "s = [] \<or> hd s \<noteq> c \<Longrightarrow> FindStringSubmatch (Bare (Lit c) # ps) s = None"
  by (cases s) (auto simp: FindStringSubmatch_def)

lemma set_plus_splits:
  "set (plus_splits P s) = {(u, r). s = u @ r \<and> u \<noteq> [] \<and> list_all P u}"
proof (induction s)
  case Nil
  show ?case by simp
next
  case (Cons x s)
  show ?case
  proof (cases "P x")
    case False
    then show ?thesis by (auto simp: Cons_eq_append_conv)
  next
    case True
    have "set (plus_splits P (x # s)) = (\<lambda>(u, r). (x # u, r)) ` set (plus_splits P s) \<union> {([x], s)}"
      using True by simp
    also have "\<dots> = {(u, r). x # s = u @ r \<and> u \<noteq> [] \<and> list_all P u}"
      unfolding Cons.IH using True
      by (auto simp: Cons_eq_append_conv image_iff)
    finally show ?thesis .
  qed
qed

lemma in_match_atom_Lit:
  "(u, r) \<in> set (match_atom (Lit c) s) \<longleftrightarrow> u = [c] \<and> s = c # r"
  by (cases s) auto

lemma in_match_atom_Plus:
  "(u, r) \<in> set (match_atom (Plus k) s) \<longleftrightarrow> s = u @ r \<and> u \<noteq> [] \<and> list_all (in_class k) u"
  by (simp add: set_plus_splits)

lemma in_match_atoms_Nil:
  "(w, r) \<in> set (match_atoms [] s) \<longleftrightarrow> w = [] \<and> r = s"
  by auto

lemma in_match_atoms_Cons:
  "(w, r') \<in> set (match_atoms (a # as) s) \<longleftrightarrow>
     (\<exists>u v r. w = u @ v \<and> (u, r) \<in> set (match_atom a s) \<and> (v, r') \<in> set (match_atoms as r))"
  by (simp del: match_atom.simps) force

lemma in_match_pieces_Nil:
  "(caps, r) \<in> set (match_pieces [] s) \<longleftrightarrow> caps = [] \<and> r = s"
  by auto

lemma in_match_pieces_Group:
  "(caps, r') \<in> set (match_pieces (Group as # ps) s) \<longleftrightarrow>
     (\<exists>u r caps'. caps = u # caps' \<and> (u, r) \<in> set (match_atoms as s) \<and> (caps', r') \<in> set (match_pieces ps r))"
  by simp force

lemma in_match_pieces_str:
  "(caps, r) \<in> set (match_pieces (str l @ ps) s) \<longleftrightarrow>
     (\<exists>s'. s = l @ s' \<and> (caps, r) \<in> set (match_pieces ps s'))"
proof -
  have "take (length l) s = l \<longleftrightarrow> (\<exists>s'. s = l @ s')"
    by (metis append_eq_conv_conj append_take_drop_id)
  then show ?thesis
    unfolding match_pieces_str by (auto simp: append_eq_conv_conj)
qed

lemma in_class_Digit: "in_class Digit = is_digit"
  by (rule ext) simp

subsection \<open>The histogram pattern\<close>

text \<open>
  The keys that match the histogram pattern, and their captures: a key has at most one
  reading as \<^verbatim>\<open>histogram.\<close>, digits, dot, digits, \<^verbatim>\<open>.to.\<close>, digits, dot, digits.
\<close>

lemma in_number:
  "(w, r) \<in> set (match_atoms [Plus Digit, Lit CHR ''.'', Plus Digit] s) \<longleftrightarrow>
     (\<exists>a b. digits a \<and> digits b \<and> w = a @ ''.'' @ b \<and> s = w @ r)"
  (is "?L \<longleftrightarrow> ?R")
proof
  assume ?L
  then obtain a r1 v1 where w: "w = a @ v1" and a: "(a, r1) \<in> set (match_atom (Plus Digit) s)"
    and v1: "(v1, r) \<in> set (match_atoms [Lit CHR ''.'', Plus Digit] r1)"
    unfolding in_match_atoms_Cons [of w r "Plus Digit"] by blast
  from v1 obtain p r2 v2 where v1': "v1 = p @ v2" and p: "(p, r2) \<in> set (match_atom (Lit CHR ''.'') r1)"
    and v2: "(v2, r) \<in> set (match_atoms [Plus Digit] r2)"
    unfolding in_match_atoms_Cons [of v1 r "Lit CHR ''.''"] by blast
  from v2 obtain b r3 where v2': "v2 = b" and b: "(b, r3) \<in> set (match_atom (Plus Digit) r2)" and r3: "r3 = r"
    unfolding in_match_atoms_Cons [of v2 r "Plus Digit"] in_match_atoms_Nil by auto
  from a have 1: "s = a @ r1" "digits a" unfolding in_match_atom_Plus digits_def in_class_Digit by simp_all
  from p have 2: "p = ''.''" "r1 = CHR ''.'' # r2" unfolding in_match_atom_Lit by simp_all
  from b r3 have 3: "r2 = b @ r" "digits b" unfolding in_match_atom_Plus digits_def in_class_Digit by simp_all
  show ?R using w v1' v2' 1 2 3 by auto
next
  assume ?R
  then obtain a b where ab: "digits a" "digits b" and w: "w = a @ ''.'' @ b" and s: "s = w @ r"
    by blast
  have 3: "(b, r) \<in> set (match_atoms [Plus Digit] (b @ r))"
    unfolding in_match_atoms_Cons in_match_atoms_Nil in_match_atom_Plus in_class_Digit using ab by (simp add: digits_def)
  have 2: "(''.'' @ b, r) \<in> set (match_atoms [Lit CHR ''.'', Plus Digit] (''.'' @ b @ r))"
    unfolding in_match_atoms_Cons [of _ _ "Lit CHR ''.''"] in_match_atom_Lit using 3 by auto
  have 1: "(a, ''.'' @ b @ r) \<in> set (match_atom (Plus Digit) (a @ ''.'' @ b @ r))"
    unfolding in_match_atom_Plus in_class_Digit using ab by (simp add: digits_def)
  have "(a @ ''.'' @ b, r) \<in> set (match_atoms [Plus Digit, Lit CHR ''.'', Plus Digit] (a @ ''.'' @ b @ r))"
    unfolding in_match_atoms_Cons [of _ _ "Plus Digit" "[Lit CHR ''.'', Plus Digit]"] using 1 2 by blast
  then show ?L using w s by simp
qed

lemma in_histogramPattern:
  "(caps, r) \<in> set (match_pieces histogramPattern s) \<longleftrightarrow>
     (\<exists>a b c d. digits a \<and> digits b \<and> digits c \<and> digits d
        \<and> caps = [a @ ''.'' @ b, c @ ''.'' @ d]
        \<and> s = ''histogram.'' @ a @ ''.'' @ b @ ''.to.'' @ c @ ''.'' @ d @ r)"
  (is "?L \<longleftrightarrow> ?R")
proof -
  let ?n = "[Plus Digit, Lit CHR ''.'', Plus Digit]"
  have hp: "histogramPattern = str ''histogram.'' @ Group ?n # str ''.to.'' @ Group ?n # []"
    by (simp add: histogramPattern_def)
  show ?thesis
  proof
    assume ?L
    then obtain s1 where s: "s = ''histogram.'' @ s1"
      and 1: "(caps, r) \<in> set (match_pieces (Group ?n # str ''.to.'' @ Group ?n # []) s1)"
      unfolding hp in_match_pieces_str by blast
    from 1 obtain x r1 caps1 where caps: "caps = x # caps1"
      and x: "(x, r1) \<in> set (match_atoms ?n s1)"
      and 2: "(caps1, r) \<in> set (match_pieces (str ''.to.'' @ Group ?n # []) r1)"
      unfolding in_match_pieces_Group by blast
    from 2 obtain s2 where r1: "r1 = ''.to.'' @ s2"
      and 3: "(caps1, r) \<in> set (match_pieces (Group ?n # []) s2)"
      unfolding in_match_pieces_str by blast
    from 3 obtain y where caps1: "caps1 = [y]" and y: "(y, r) \<in> set (match_atoms ?n s2)"
      unfolding in_match_pieces_Group in_match_pieces_Nil by blast
    from x obtain a b where ab: "digits a" "digits b" "x = a @ ''.'' @ b" "s1 = x @ r1"
      unfolding in_number by blast
    from y obtain c d where cd: "digits c" "digits d" "y = c @ ''.'' @ d" "s2 = y @ r"
      unfolding in_number by blast
    have "s = ''histogram.'' @ a @ ''.'' @ b @ ''.to.'' @ c @ ''.'' @ d @ r"
      using s ab(3,4) r1 cd(3,4) by simp
    moreover have "caps = [a @ ''.'' @ b, c @ ''.'' @ d]"
      using caps caps1 ab(3) cd(3) by simp
    ultimately show ?R using ab(1,2) cd(1,2) by blast
  next
    assume ?R
    then obtain a b c d where ab: "digits a" "digits b" and cd: "digits c" "digits d"
      and caps: "caps = [a @ ''.'' @ b, c @ ''.'' @ d]"
      and s: "s = ''histogram.'' @ a @ ''.'' @ b @ ''.to.'' @ c @ ''.'' @ d @ r"
      by blast
    have y: "(c @ ''.'' @ d, r) \<in> set (match_atoms ?n ((c @ ''.'' @ d) @ r))"
      unfolding in_number using cd by blast
    have x: "(a @ ''.'' @ b, ''.to.'' @ (c @ ''.'' @ d) @ r)
        \<in> set (match_atoms ?n ((a @ ''.'' @ b) @ ''.to.'' @ (c @ ''.'' @ d) @ r))"
      unfolding in_number using ab by blast
    have 3: "([c @ ''.'' @ d], r) \<in> set (match_pieces (Group ?n # []) ((c @ ''.'' @ d) @ r))"
      unfolding in_match_pieces_Group in_match_pieces_Nil using y by blast
    have 2: "([c @ ''.'' @ d], r) \<in> set (match_pieces (str ''.to.'' @ Group ?n # []) (''.to.'' @ (c @ ''.'' @ d) @ r))"
      unfolding in_match_pieces_str using 3 by blast
    have 1: "(caps, r) \<in> set (match_pieces (Group ?n # str ''.to.'' @ Group ?n # [])
               ((a @ ''.'' @ b) @ ''.to.'' @ (c @ ''.'' @ d) @ r))"
      unfolding in_match_pieces_Group caps using x 2 by blast
    have "(caps, r) \<in> set (match_pieces histogramPattern
               (''histogram.'' @ (a @ ''.'' @ b) @ ''.to.'' @ (c @ ''.'' @ d) @ r))"
      unfolding hp in_match_pieces_str using 1 by blast
    then show ?L using s by simp
  qed
qed

lemma not_digit_dot [simp]: "\<not> is_digit CHR ''.''"
  by (simp add: is_digit_def)

lemma sep_unique:
  assumes "list_all P a" "list_all P a'" "\<not> P c" "a @ c # x = a' @ c # x'"
  shows "a = a' \<and> x = x'"
proof -
  have "takeWhile P (a @ c # x) = a" "takeWhile P (a' @ c # x') = a'"
    using assms(1-3) by (simp_all add: takeWhile_append2 list_all_iff)
  with assms(4) have "a = a'" by simp
  with assms(4) show ?thesis by simp
qed

lemma histogram_key_unique:
  assumes "digits a" "digits b" "digits c" "digits d" "digits a'" "digits b'" "digits c'" "digits d'"
    and "''histogram.'' @ a @ ''.'' @ b @ ''.to.'' @ c @ ''.'' @ d
       = ''histogram.'' @ a' @ ''.'' @ b' @ ''.to.'' @ c' @ ''.'' @ d'"
  shows "a = a' \<and> b = b' \<and> c = c' \<and> d = d'"
proof -
  from assms(9) have 1: "a @ CHR ''.'' # (b @ ''.to.'' @ c @ ''.'' @ d) = a' @ CHR ''.'' # (b' @ ''.to.'' @ c' @ ''.'' @ d')"
    by simp
  have la: "list_all is_digit a" "list_all is_digit a'" using assms(1,5) by (simp_all add: digits_def)
  have lb: "list_all is_digit b" "list_all is_digit b'" using assms(2,6) by (simp_all add: digits_def)
  have lc: "list_all is_digit c" "list_all is_digit c'" using assms(3,7) by (simp_all add: digits_def)
  have a: "a = a'" and 2: "b @ ''.to.'' @ c @ ''.'' @ d = b' @ ''.to.'' @ c' @ ''.'' @ d'"
    using sep_unique [OF la not_digit_dot 1] by simp_all
  from 2 have 3: "b @ CHR ''.'' # (''to.'' @ c @ ''.'' @ d) = b' @ CHR ''.'' # (''to.'' @ c' @ ''.'' @ d')"
    by simp
  have b: "b = b'" and 4: "''to.'' @ c @ ''.'' @ d = ''to.'' @ c' @ ''.'' @ d'"
    using sep_unique [OF lb not_digit_dot 3] by simp_all
  from 4 have 5: "c @ CHR ''.'' # d = c' @ CHR ''.'' # d'"
    by simp
  have "c = c' \<and> d = d'"
    using sep_unique [OF lc not_digit_dot 5] by simp
  with a b show ?thesis by simp
qed

lemma FindStringSubmatch_histogram:
  "FindStringSubmatch histogramPattern key = Some ms \<longleftrightarrow>
     (\<exists>a b c d. digits a \<and> digits b \<and> digits c \<and> digits d
        \<and> key = ''histogram.'' @ a @ ''.'' @ b @ ''.to.'' @ c @ ''.'' @ d
        \<and> ms = [key, a @ ''.'' @ b, c @ ''.'' @ d])"
  (is "?L \<longleftrightarrow> ?R")
proof
  assume ?L
  from FindStringSubmatch_Some [OF this] obtain caps where ms: "ms = key # caps"
    and "(caps, []) \<in> set (match_pieces histogramPattern key)" by blast
  then obtain a b c d where "digits a" "digits b" "digits c" "digits d"
    "caps = [a @ ''.'' @ b, c @ ''.'' @ d]"
    "key = ''histogram.'' @ a @ ''.'' @ b @ ''.to.'' @ c @ ''.'' @ d @ []"
    unfolding in_histogramPattern by blast
  with ms show ?R by auto
next
  assume ?R
  then obtain a b c d where dg: "digits a" "digits b" "digits c" "digits d"
    and key: "key = ''histogram.'' @ a @ ''.'' @ b @ ''.to.'' @ c @ ''.'' @ d"
    and ms: "ms = [key, a @ ''.'' @ b, c @ ''.'' @ d]" by blast
  have in1: "([a @ ''.'' @ b, c @ ''.'' @ d], []) \<in> set (match_pieces histogramPattern key)"
    unfolding in_histogramPattern using dg key by auto
  have "FindStringSubmatch histogramPattern key = Some (key # [a @ ''.'' @ b, c @ ''.'' @ d])"
  proof (rule FindStringSubmatch_unique [OF in1])
    fix caps' assume "(caps', []) \<in> set (match_pieces histogramPattern key)"
    then obtain a' b' c' d' where dg': "digits a'" "digits b'" "digits c'" "digits d'"
      and caps': "caps' = [a' @ ''.'' @ b', c' @ ''.'' @ d']"
      and key': "key = ''histogram.'' @ a' @ ''.'' @ b' @ ''.to.'' @ c' @ ''.'' @ d'"
      unfolding in_histogramPattern by auto
    from histogram_key_unique [OF dg dg'] key key'
    have "a = a' \<and> b = b' \<and> c = c' \<and> d = d'" by simp
    with caps' show "caps' = [a @ ''.'' @ b, c @ ''.'' @ d]" by simp
  qed
  with ms show ?L by simp
qed

lemma histogram_matches_length:
  "FindStringSubmatch histogramPattern key = Some ms \<Longrightarrow> length ms = 3"
  unfolding FindStringSubmatch_histogram by auto

lemma histogram_first_char:
  "key = [] \<or> hd key \<noteq> CHR ''h'' \<Longrightarrow> FindStringSubmatch histogramPattern key = None"
  by (simp add: histogramPattern_def str_def first_lit_mismatch)

subsection \<open>strconv\<close>

lemma dec_split_number:
  assumes "digits a" "digits b"
  shows "dec_split (a @ ''.'' @ b) = Some (a, b)"
proof -
  have "takeWhile is_digit (a @ CHR ''.'' # b) = a" "dropWhile is_digit (a @ CHR ''.'' # b) = CHR ''.'' # b"
    using assms(1) by (simp_all add: takeWhile_append2 dropWhile_append2 list_all_iff digits_def)
  then show ?thesis using assms by (simp add: dec_split_def digits_def)
qed

lemma ParseFloat_number:
  assumes "digits a" "digits b"
  shows "ParseFloat fl (a @ ''.'' @ b) =
     (if dec_value (a, b) < overflow64 then (round64 fl (dec_value (a, b)), None)
      else (pos_inf fl, Some (NumError ''ParseFloat'' (a @ ''.'' @ b) ErrRange)))"
  unfolding ParseFloat_def dec_split_number [OF assms] by simp

lemma ParseFloat_error:
  "ParseFloat fl s = (v, Some e) \<Longrightarrow> \<exists>k. e = NumError ''ParseFloat'' s k"
  by (auto simp: ParseFloat_def split: option.splits if_splits prod.splits)

lemma ParseUint_error:
  "ParseUint s = (v, Some e) \<Longrightarrow> \<exists>k. e = NumError ''ParseUint'' s k"
  by (auto simp: ParseUint_def split: if_splits prod.splits option.splits)

lemma decimal_snoc: "decimal (s @ [c]) = 10 * decimal s + digit_val c"
  by (simp add: decimal_def)

lemma decimal_append: "decimal (s @ t) = decimal s * 10 ^ length t + decimal t"
proof (induction t rule: rev_induct)
  case Nil
  show ?case by (simp add: decimal_def)
next
  case (snoc x t)
  have "decimal (s @ t @ [x]) = decimal ((s @ t) @ [x])" by simp
  also have "\<dots> = 10 * decimal (s @ t) + digit_val x" by (rule decimal_snoc)
  also have "\<dots> = 10 * (decimal s * 10 ^ length t + decimal t) + digit_val x" by (simp only: snoc)
  also have "\<dots> = decimal s * 10 ^ length (t @ [x]) + (10 * decimal t + digit_val x)"
    by (simp add: algebra_simps)
  also have "10 * decimal t + digit_val x = decimal (t @ [x])" by (rule decimal_snoc [symmetric])
  finally show ?case .
qed

lemma decimal_zeros: "decimal (replicate n CHR ''0'') = 0"
proof (induction n)
  case 0
  show ?case by (simp add: decimal_def)
next
  case (Suc n)
  have "decimal (replicate (Suc n) CHR ''0'') = decimal (replicate n CHR ''0'' @ [CHR ''0''])"
    by (simp add: replicate_append_same)
  also have "\<dots> = 0" unfolding decimal_snoc Suc by (simp add: digit_val_def)
  finally show ?case .
qed

text \<open>
  On a string of digits the loop of \<^verbatim>\<open>ParseUint\<close> computes the decimal value, and returns
  the range error exactly when that value is \<open>2^64\<close> or more.
\<close>

lemma unat_cutoff: "unat cutoff = 1844674407370955162"
  by (simp add: cutoff_def)

lemma digit_val_le: "is_digit c \<Longrightarrow> digit_val c \<le> 9"
  unfolding is_digit_def digit_val_def by linarith

lemma decimal_Cons: "decimal (c # s) = digit_val c * 10 ^ length s + decimal s"
  using decimal_append [of "[c]" s] by (simp add: decimal_def)

lemma ParseUint_loop_digits:
  assumes "list_all is_digit s"
  shows "ParseUint_loop s n =
     (if unat n * 10 ^ length s + decimal s < 2 ^ 64
      then (of_nat (unat n * 10 ^ length s + decimal s), None)
      else (maxVal, Some ErrRange))"
  using assms
proof (induction s arbitrary: n)
  case Nil
  show ?case using unsigned_less [of n, where 'a = nat] by (simp add: decimal_def)
next
  case (Cons c s)
  from Cons.prems have dc: "is_digit c" and ds: "list_all is_digit s" by simp_all
  let ?d = "digit_val c"
  let ?T = "unat n * 10 ^ length (c # s) + decimal (c # s)"
  have T: "?T = (unat n * 10 + ?d) * 10 ^ length s + decimal s"
    by (simp add: decimal_Cons algebra_simps)
  have ge: "unat n * 10 + ?d \<le> ?T"
  proof -
    have "(unat n * 10 + ?d) * 1 \<le> (unat n * 10 + ?d) * 10 ^ length s"
      by (rule mult_le_mono2) simp
    then have "unat n * 10 + ?d \<le> (unat n * 10 + ?d) * 10 ^ length s"
      by (simp only: mult_1_right)
    then show ?thesis unfolding T by (rule trans_le_add1)
  qed
  show ?case
  proof (cases "cutoff \<le> n")
    case True
    then have "1844674407370955162 \<le> unat n" by (simp add: word_le_nat_alt unat_cutoff)
    with ge have "\<not> ?T < 2 ^ 64" by simp
    with True dc show ?thesis by simp
  next
    case False
    then have small: "unat n \<le> 1844674407370955161" by (simp add: word_le_nat_alt unat_cutoff)
    then have "unat n * unat (10 :: uint64) < 2 ^ LENGTH(64)" by simp
    then have "unat (n * 10) = unat n * unat (10 :: uint64)" by (rule unat_mult_lem [THEN iffD1])
    then have m: "unat (n * 10) = unat n * 10" by simp
    have d: "unat (of_nat ?d :: uint64) = ?d"
      using digit_val_le [OF dc] by (simp add: unat_of_nat)
    let ?n1 = "n * 10 + of_nat ?d"
    show ?thesis
    proof (cases "unat n * 10 + ?d < 2 ^ 64")
      case True
      then have "unat (n * 10) + unat (of_nat ?d :: uint64) < 2 ^ LENGTH(64)" by (simp add: m d)
      then have "unat ?n1 = unat (n * 10) + unat (of_nat ?d :: uint64)"
        by (rule unat_add_lem [THEN iffD1])
      then have n1: "unat ?n1 = unat n * 10 + ?d" by (simp add: m d)
      then have a: "\<not> ?n1 < n * 10" by (simp add: word_less_nat_alt m)
      have b: "\<not> maxVal < ?n1" unfolding maxVal_def not_less by (rule word_n1_ge)
      from Cons.IH [OF ds, of ?n1] have "ParseUint_loop s ?n1 =
         (if ?T < 2 ^ 64 then (of_nat ?T, None) else (maxVal, Some ErrRange))"
        unfolding n1 T .
      with dc False a b show ?thesis by (simp add: Let_def)
    next
      case wrap: False
      then have "\<not> (unat (n * 10) + unat (of_nat ?d :: uint64) < 2 ^ LENGTH(64))" by (simp add: m d)
      then have "\<not> n * 10 \<le> ?n1" by (simp add: no_olen_add_nat)
      then have a: "?n1 < n * 10" by simp
      from wrap ge have "\<not> ?T < 2 ^ 64" by simp
      with dc False a show ?thesis by (simp add: Let_def)
    qed
  qed
qed

lemma ParseUint_digits:
  assumes "digits s"
  shows "ParseUint s =
     (if decimal s < 2 ^ 64 then (of_nat (decimal s), None)
      else (maxVal, Some (NumError ''ParseUint'' s ErrRange)))"
  using assms ParseUint_loop_digits [of s 0] by (simp add: ParseUint_def digits_def)

lemma ParseUint_range_first:
  "ParseUint ''99999999999999999999x''
     = (maxVal, Some (NumError ''ParseUint'' ''99999999999999999999x'' ErrRange))"
  by (simp add: ParseUint_def is_digit_def digit_val_def cutoff_def maxVal_def Let_def)

subsection \<open>The catalog\<close>

text \<open>
  Every definition of the catalog has as many capture groups as labels, so that
  \<^verbatim>\<open>MustNewConstMetric\<close> does not panic; every pattern begins with one of the letters m, n,
  t, u, so that a key that matches the histogram pattern matches no definition.
\<close>

lemma catalog_groups:
  "list_all (\<lambda>m. groups (pattern m) = length (variableLabels (desc m))) unboundMetrics"
  by (simp add: unboundMetrics_def newUnboundMetric_def NewDesc_def groups_def str_def)

lemma catalog_first_char:
  assumes "key = [] \<or> hd key \<notin> set ''mntu''"
  shows "list_all (\<lambda>m. FindStringSubmatch (pattern m) key = None) unboundMetrics"
proof -
  from assms have "key = [] \<or> hd key \<noteq> CHR ''m''" "key = [] \<or> hd key \<noteq> CHR ''n''"
    "key = [] \<or> hd key \<noteq> CHR ''t''" "key = [] \<or> hd key \<noteq> CHR ''u''" by auto
  then show ?thesis
    by (simp add: unboundMetrics_def newUnboundMetric_def str_def first_lit_mismatch)
qed

lemma find_not_None: "find P xs \<noteq> None \<Longrightarrow> \<exists>x \<in> set xs. P x"
  by (induction xs) (auto split: if_splits)

lemma range_metrics_no_match:
  "list_all (\<lambda>m. FindStringSubmatch (pattern m) key = None) ms \<Longrightarrow> range_metrics fl ms key val = Ok []"
  by (induction ms) simp_all

lemma range_metrics_find:
  "range_metrics fl ms key val =
     (case find (\<lambda>m. FindStringSubmatch (pattern m) key \<noteq> None) ms of
        None \<Rightarrow> Ok []
      | Some m \<Rightarrow>
          (case ParseFloat fl val of
             (v, Some e) \<Rightarrow> Err e
           | (v, None) \<Rightarrow>
               (case MustNewConstMetric (desc m) (valueType m) v (tl (the (FindStringSubmatch (pattern m) key))) of
                  None \<Rightarrow> Panic
                | Some x \<Rightarrow> Ok [x])))"
proof (induction ms)
  case Nil
  show ?case by simp
next
  case (Cons m ms)
  show ?case
  proof (cases "FindStringSubmatch (pattern m) key")
    case None
    then show ?thesis using Cons by simp
  next
    case (Some matches)
    then show ?thesis by (simp split: prod.splits option.splits)
  qed
qed

lemma labels_fit:
  assumes "groups (pattern m) = length (variableLabels (desc m))"
    and "FindStringSubmatch (pattern m) key \<noteq> None"
  shows "MustNewConstMetric (desc m) (valueType m) v (tl (the (FindStringSubmatch (pattern m) key)))
       = Some (ConstMetric (desc m) (valueType m) v (tl (the (FindStringSubmatch (pattern m) key))))"
proof -
  from assms(2) obtain ms where ms: "FindStringSubmatch (pattern m) key = Some ms" by auto
  from FindStringSubmatch_Some [OF this] assms(1) have "length (tl ms) = length (variableLabels (desc m))"
    by auto
  then show ?thesis by (simp add: ms MustNewConstMetric_def)
qed

lemma range_metrics_catalog:
  assumes "list_all (\<lambda>m. groups (pattern m) = length (variableLabels (desc m))) ms"
  shows "range_metrics fl ms key val =
     (case find (\<lambda>m. FindStringSubmatch (pattern m) key \<noteq> None) ms of
        None \<Rightarrow> Ok []
      | Some m \<Rightarrow>
          (case ParseFloat fl val of
             (v, Some e) \<Rightarrow> Err e
           | (v, None) \<Rightarrow>
               Ok [ConstMetric (desc m) (valueType m) v (tl (the (FindStringSubmatch (pattern m) key)))]))"
proof (cases "find (\<lambda>m. FindStringSubmatch (pattern m) key \<noteq> None) ms")
  case None
  then show ?thesis by (simp add: range_metrics_find)
next
  case (Some m)
  then have "m \<in> set ms" "FindStringSubmatch (pattern m) key \<noteq> None"
    by (auto simp: find_Some_iff)
  with assms have "groups (pattern m) = length (variableLabels (desc m))"
    "FindStringSubmatch (pattern m) key \<noteq> None"
    by (auto simp: list_all_iff)
  from labels_fit [OF this]
  have L: "\<And>v. MustNewConstMetric (desc m) (valueType m) v (tl (the (FindStringSubmatch (pattern m) key)))
       = Some (ConstMetric (desc m) (valueType m) v (tl (the (FindStringSubmatch (pattern m) key))))" .
  show ?thesis
    unfolding range_metrics_find Some option.case L
    by (cases "ParseFloat fl val") (simp split: option.splits)
qed

lemma range_metrics_not_Panic: "range_metrics fl unboundMetrics key val \<noteq> Panic"
  unfolding range_metrics_catalog [OF catalog_groups]
  by (simp split: option.splits prod.splits)

lemma range_metrics_error:
  "range_metrics fl unboundMetrics key val = Err e \<Longrightarrow> \<exists>k. e = NumError ''ParseFloat'' val k"
  unfolding range_metrics_catalog [OF catalog_groups]
  by (auto split: option.splits prod.splits dest: ParseFloat_error)

lemma range_metrics_samples:
  "range_metrics fl unboundMetrics key val = Ok sent \<Longrightarrow> \<forall>m \<in> set sent. \<exists>d t v ls. m = ConstMetric d t v ls"
  unfolding range_metrics_catalog [OF catalog_groups]
  by (auto split: option.splits prod.splits)

lemma histogram_key_not_catalog:
  assumes "FindStringSubmatch histogramPattern key \<noteq> None"
  shows "range_metrics fl unboundMetrics key val = Ok []"
proof -
  have "\<not> (key = [] \<or> hd key \<noteq> CHR ''h'')"
  proof
    assume "key = [] \<or> hd key \<noteq> CHR ''h''"
    then have "FindStringSubmatch histogramPattern key = None" by (rule histogram_first_char)
    with assms show False by simp
  qed
  then have "key \<noteq> [] \<and> hd key = CHR ''h''" by simp
  then have "list_all (\<lambda>m. FindStringSubmatch (pattern m) key = None) unboundMetrics"
    by (intro catalog_first_char) simp
  then show ?thesis by (rule range_metrics_no_match)
qed

section \<open>The loop over the lines\<close>

subsection \<open>One line\<close>

lemma histogram_line_no_match:
  "FindStringSubmatch histogramPattern key = None \<Longrightarrow> histogram_line fl h key val = Ok h"
  by (simp add: histogram_line_def)

lemma histogram_line_match:
  assumes "FindStringSubmatch histogramPattern key = Some ms"
  shows "histogram_line fl h key val =
     (case ParseUint val of
        (v, Some e) \<Rightarrow> Err e
      | (v, None) \<Rightarrow> Ok (observe fl h (fst (ParseFloat fl (ms ! 1)), fst (ParseFloat fl (ms ! 2)), v)))"
  using histogram_matches_length [OF assms]
  by (simp add: histogram_line_def assms observe_def contribution_def upper_bound_def observations_def Let_def
      split: prod.splits option.splits)

lemma histogram_line_not_Panic: "histogram_line fl h key val \<noteq> Panic"
proof (cases "FindStringSubmatch histogramPattern key")
  case None
  then show ?thesis by (simp add: histogram_line_no_match)
next
  case (Some ms)
  then show ?thesis by (simp add: histogram_line_match split: prod.splits option.splits)
qed

lemma histogram_line_bucket_line:
  assumes "Split line CHR ''='' = [key, val]"
  shows "histogram_line fl h key val =
     (case FindStringSubmatch histogramPattern key of
        None \<Rightarrow> Ok h
      | Some ms \<Rightarrow>
          (case bucket_line fl line of
             None \<Rightarrow> Err (the (snd (ParseUint val)))
           | Some t \<Rightarrow> Ok (observe fl h t)))"
proof (cases "FindStringSubmatch histogramPattern key")
  case None
  then show ?thesis by (simp add: histogram_line_no_match)
next
  case (Some ms)
  then show ?thesis
    by (cases "ParseUint val") (auto simp: histogram_line_match bucket_line_def assms split: option.splits)
qed

lemma histogram_line_error:
  "histogram_line fl h key val = Err e \<Longrightarrow> \<exists>k. e = NumError ''ParseUint'' val k"
proof (cases "FindStringSubmatch histogramPattern key")
  case None
  assume "histogram_line fl h key val = Err e"
  with None show ?thesis by (simp add: histogram_line_no_match)
next
  case (Some ms)
  assume "histogram_line fl h key val = Err e"
  with Some show ?thesis
    by (auto simp: histogram_line_match split: prod.splits option.splits dest: ParseUint_error)
qed

lemma bucket_line_no_match:
  "Split line CHR ''='' = [key, val] \<Longrightarrow> FindStringSubmatch histogramPattern key = None
     \<Longrightarrow> bucket_line fl line = None"
  by (simp add: bucket_line_def)

lemma scan_loop_not_kv:
  "length (Split line CHR ''='') \<noteq> 2 \<Longrightarrow> scan_loop fl (line # rest) h = ([], Err (NotKeyValue line))"
  by simp

lemma scan_loop_kv:
  assumes "Split line CHR ''='' = [key, val]"
  shows "scan_loop fl (line # rest) h =
     (case range_metrics fl unboundMetrics key val of
        Err e \<Rightarrow> ([], Err e)
      | Panic \<Rightarrow> ([], Panic)
      | Ok sent \<Rightarrow>
          (case histogram_line fl h key val of
             Err e \<Rightarrow> (sent, Err e)
           | Panic \<Rightarrow> (sent, Panic)
           | Ok h' \<Rightarrow> (case scan_loop fl rest h' of (later, r) \<Rightarrow> (sent @ later, r))))"
  by (simp add: assms Let_def split: result.splits)

declare scan_loop.simps(2) [simp del]

lemma scan_loop_dropped:
  assumes "Split line CHR ''='' = [key, val]"
    and "list_all (\<lambda>m. FindStringSubmatch (pattern m) key = None) unboundMetrics"
    and "FindStringSubmatch histogramPattern key = None"
  shows "scan_loop fl (line # rest) h = scan_loop fl rest h"
  unfolding scan_loop_kv [OF assms(1)] range_metrics_no_match [OF assms(2)]
    histogram_line_no_match [OF assms(3)]
  by (simp split: prod.splits)

lemma bucket_like_dropped:
  assumes kv: "Split line CHR ''='' = [key, val]"
    and k: "take 10 key = ''histogram.''"
    and m: "FindStringSubmatch histogramPattern key = None"
  shows "scan_loop fl (line # rest) h = scan_loop fl rest h"
proof -
  from k have "key \<noteq> []" by auto
  moreover have "hd key = hd (take 10 key)" using \<open>key \<noteq> []\<close> by (cases key) simp_all
  ultimately have "key \<noteq> [] \<and> hd key = CHR ''h''" using k by simp
  then have "list_all (\<lambda>m. FindStringSubmatch (pattern m) key = None) unboundMetrics"
    by (intro catalog_first_char) simp
  from scan_loop_dropped [OF kv this m] show ?thesis .
qed

lemma bucket_line_step:
  assumes "Split line CHR ''='' = [key, val]"
    and "FindStringSubmatch histogramPattern key = Some [key, lo, hi]"
    and "ParseUint val = (v, None)"
  shows "scan_loop fl (line # rest) h
       = scan_loop fl rest (observe fl h (fst (ParseFloat fl lo), fst (ParseFloat fl hi), v))
       \<and> bucket_line fl line = Some (fst (ParseFloat fl lo), fst (ParseFloat fl hi), v)"
proof -
  have m: "FindStringSubmatch histogramPattern key \<noteq> None" using assms(2) by simp
  have "histogram_line fl h key val = Ok (observe fl h (fst (ParseFloat fl lo), fst (ParseFloat fl hi), v))"
    by (simp add: histogram_line_match [OF assms(2)] assms(3))
  then have "scan_loop fl (line # rest) h
       = scan_loop fl rest (observe fl h (fst (ParseFloat fl lo), fst (ParseFloat fl hi), v))"
    by (simp add: scan_loop_kv [OF assms(1)] histogram_key_not_catalog [OF m] split: prod.splits)
  moreover have "bucket_line fl line = Some (fst (ParseFloat fl lo), fst (ParseFloat fl hi), v)"
    by (simp add: bucket_line_def assms)
  ultimately show ?thesis ..
qed

lemma matching_key_step:
  assumes ms: "FindStringSubmatch histogramPattern key = Some matches"
    and kv: "Split line CHR ''='' = [key, val]"
    and pu: "ParseUint val = (n, None)"
  shows "scan_loop fl (line # rest) h =
           scan_loop fl rest
             \<lparr>histogramCount = histogramCount h + n,
              histogramSum = fadd fl (histogramSum h)
                (fmul fl (fsub fl (fst (ParseFloat fl (matches ! 2))) (fst (ParseFloat fl (matches ! 1))))
                   (float64 fl n)),
              histogramBuckets = AList.update (fst (ParseFloat fl (matches ! 2))) n (histogramBuckets h)\<rparr>"
proof -
  have m: "FindStringSubmatch histogramPattern key \<noteq> None" using ms by simp
  have "histogram_line fl h key val =
      Ok (observe fl h (fst (ParseFloat fl (matches ! 1)), fst (ParseFloat fl (matches ! 2)), n))"
    by (simp add: histogram_line_match [OF ms] pu)
  then show ?thesis
    by (simp add: scan_loop_kv [OF kv] histogram_key_not_catalog [OF m] observe_def
          contribution_def upper_bound_def observations_def split: prod.splits)
qed

lemma catalog_match_error:
  assumes kv: "Split line CHR ''='' = [key, val]"
    and m: "\<exists>m \<in> set unboundMetrics. FindStringSubmatch (pattern m) key \<noteq> None"
    and pf: "snd (ParseFloat fl val) \<noteq> None"
  shows "\<exists>k. scan_loop fl (line # rest) h = ([], Err (NumError ''ParseFloat'' val k))"
proof -
  from m obtain m' where f: "find (\<lambda>m. FindStringSubmatch (pattern m) key \<noteq> None) unboundMetrics = Some m'"
    by (cases "find (\<lambda>m. FindStringSubmatch (pattern m) key \<noteq> None) unboundMetrics")
       (auto simp: find_None_iff)
  from pf obtain v e where p: "ParseFloat fl val = (v, Some e)"
    by (cases "ParseFloat fl val") auto
  from ParseFloat_error [OF p] obtain k where e: "e = NumError ''ParseFloat'' val k" ..
  have "range_metrics fl unboundMetrics key val = Err e"
    unfolding range_metrics_catalog [OF catalog_groups] f by (simp add: p)
  then show ?thesis using e by (simp add: scan_loop_kv [OF kv])
qed

lemma histogram_count_error:
  assumes kv: "Split line CHR ''='' = [key, val]"
    and m: "FindStringSubmatch histogramPattern key \<noteq> None"
    and pu: "snd (ParseUint val) \<noteq> None"
  shows "\<exists>k. scan_loop fl (line # rest) h = ([], Err (NumError ''ParseUint'' val k))"
proof -
  from m obtain ms where ms: "FindStringSubmatch histogramPattern key = Some ms" by auto
  from pu obtain v e where p: "ParseUint val = (v, Some e)"
    by (cases "ParseUint val") auto
  from ParseUint_error [OF p] obtain k where e: "e = NumError ''ParseUint'' val k" ..
  have "histogram_line fl h key val = Err e"
    by (simp add: histogram_line_match [OF ms] p)
  then show ?thesis using e
    by (simp add: scan_loop_kv [OF kv] histogram_key_not_catalog [OF m])
qed

lemma scan_single_error:
  assumes "Split line CHR ''='' = [key, val]" and "snd (scan_loop fl [line] h) = Err e"
  shows "\<exists>f k. e = NumError f val k"
proof (cases "range_metrics fl unboundMetrics key val")
  case (Ok sent)
  show ?thesis
  proof (cases "histogram_line fl h key val")
    case (Ok h')
    with assms \<open>range_metrics fl unboundMetrics key val = Ok sent\<close> show ?thesis
      by (simp add: scan_loop_kv)
  next
    case (Err e')
    with assms \<open>range_metrics fl unboundMetrics key val = Ok sent\<close> have "e' = e"
      by (simp add: scan_loop_kv)
    with Err histogram_line_error show ?thesis by blast
  next
    case Panic
    then show ?thesis by (simp add: histogram_line_not_Panic)
  qed
next
  case (Err e')
  with assms have "e' = e" by (simp add: scan_loop_kv)
  with Err range_metrics_error show ?thesis by blast
next
  case Panic
  then show ?thesis by (simp add: range_metrics_not_Panic)
qed

lemma scan_single_Err:
  assumes "scan_loop fl [line] h = (s, Err e)"
  shows "s = [] \<and> scan_loop fl (line # rest) h' = ([], Err e)"
proof (cases "length (Split line CHR ''='') = 2")
  case False
  with assms show ?thesis by (simp add: scan_loop_not_kv)
next
  case True
  then obtain key val where kv: "Split line CHR ''='' = [key, val]"
    using length_2 by metis
  show ?thesis
  proof (cases "range_metrics fl unboundMetrics key val")
    case (Err e')
    with assms show ?thesis by (simp add: scan_loop_kv [OF kv])
  next
    case Panic
    then show ?thesis by (simp add: range_metrics_not_Panic)
  next
    case (Ok sent)
    show ?thesis
    proof (cases "FindStringSubmatch histogramPattern key")
      case None
      with assms Ok show ?thesis by (simp add: scan_loop_kv [OF kv] histogram_line_no_match)
    next
      case (Some ms)
      then have "range_metrics fl unboundMetrics key val = Ok []"
        by (intro histogram_key_not_catalog) simp
      with Ok have sent: "sent = []" by simp
      from assms Ok Some sent show ?thesis
        by (simp add: scan_loop_kv [OF kv] histogram_line_match split: prod.splits option.splits)
    qed
  qed
qed

subsection \<open>All the lines\<close>

lemma scan_loop_append:
  "scan_loop fl (xs @ ys) h =
     (case scan_loop fl xs h of
        (s1, Ok h') \<Rightarrow> (case scan_loop fl ys h' of (s2, r) \<Rightarrow> (s1 @ s2, r))
      | (s1, Err e) \<Rightarrow> (s1, Err e)
      | (s1, Panic) \<Rightarrow> (s1, Panic))"
proof (induction xs arbitrary: h)
  case Nil
  show ?case by (simp split: prod.splits)
next
  case (Cons line xs)
  show ?case
  proof (cases "length (Split line CHR ''='') = 2")
    case False
    then show ?thesis by (simp add: scan_loop_not_kv)
  next
    case True
    then obtain key val where kv: "Split line CHR ''='' = [key, val]"
      using length_2 by metis
    show ?thesis
    proof (cases "range_metrics fl unboundMetrics key val")
      case (Ok sent)
      show ?thesis
      proof (cases "histogram_line fl h key val")
        case (Ok h1)
        note h1 = this
        obtain s1 r1 where r1: "scan_loop fl xs h1 = (s1, r1)" by (cases "scan_loop fl xs h1")
        show ?thesis
          unfolding append_Cons scan_loop_kv [OF kv] \<open>range_metrics fl unboundMetrics key val = Ok sent\<close> h1
            result.case Cons.IH r1
          by (cases r1) (simp_all split: prod.splits)
      qed (simp_all add: scan_loop_kv [OF kv] Ok)
    qed (simp_all add: scan_loop_kv [OF kv])
  qed
qed

lemma scan_loop_dropped_middle:
  assumes "Split line CHR ''='' = [key, val]"
    and "list_all (\<lambda>m. FindStringSubmatch (pattern m) key = None) unboundMetrics"
    and "FindStringSubmatch histogramPattern key = None"
  shows "scan_loop fl (xs @ line # ys) h = scan_loop fl (xs @ ys) h"
proof -
  have "\<And>h'. scan_loop fl (line # ys) h' = scan_loop fl ys h'"
    using assms by (rule scan_loop_dropped)
  then show ?thesis
    unfolding scan_loop_append [of fl xs] by simp
qed

lemma recognised_Cons:
  "recognised fl (line # lines) =
     (case bucket_line fl line of None \<Rightarrow> recognised fl lines | Some t \<Rightarrow> t # recognised fl lines)"
  by (simp add: recognised_def map_filter_simps split: option.splits)

lemma scan_loop_accumulates:
  "scan_loop fl lines h = (sent, Ok h') \<Longrightarrow> h' = foldl (observe fl) h (recognised fl lines)"
proof (induction lines arbitrary: h sent)
  case Nil
  then show ?case by (simp add: recognised_def map_filter_simps)
next
  case (Cons line lines)
  from Cons.prems have "length (Split line CHR ''='') = 2"
    by (cases "length (Split line CHR ''='') = 2") (simp_all add: scan_loop_not_kv)
  then obtain key val where kv: "Split line CHR ''='' = [key, val]"
    using length_2 by metis
  from Cons.prems obtain s0 h1 later where
    rm: "range_metrics fl unboundMetrics key val = Ok s0"
    and hl: "histogram_line fl h key val = Ok h1"
    and rest: "scan_loop fl lines h1 = (later, Ok h')"
    unfolding scan_loop_kv [OF kv] by (auto split: result.splits prod.splits)
  from Cons.IH [OF rest] have h': "h' = foldl (observe fl) h1 (recognised fl lines)" .
  show ?case
  proof (cases "FindStringSubmatch histogramPattern key")
    case None
    with hl have "h1 = h" by (simp add: histogram_line_no_match)
    moreover have "bucket_line fl line = None" using kv None by (rule bucket_line_no_match)
    ultimately show ?thesis using h' by (simp add: recognised_Cons)
  next
    case (Some ms)
    with hl obtain t where "bucket_line fl line = Some t" "h1 = observe fl h t"
      unfolding histogram_line_bucket_line [OF kv] by (auto split: option.splits)
    then show ?thesis using h' by (simp add: recognised_Cons)
  qed
qed

lemma scan_loop_samples:
  "scan_loop fl lines h = (sent, r) \<Longrightarrow> \<forall>m \<in> set sent. \<exists>d t v ls. m = ConstMetric d t v ls"
proof (induction lines arbitrary: h sent r)
  case Nil
  then show ?case by simp
next
  case (Cons line lines)
  show ?case
  proof (cases "length (Split line CHR ''='') = 2")
    case False
    with Cons.prems show ?thesis by (simp add: scan_loop_not_kv)
  next
    case True
    then obtain key val where kv: "Split line CHR ''='' = [key, val]"
      using length_2 by metis
    show ?thesis
    proof (cases "range_metrics fl unboundMetrics key val")
      case (Ok s0)
      note s0 = range_metrics_samples [OF this]
      show ?thesis
      proof (cases "histogram_line fl h key val")
        case (Ok h1)
        obtain later r1 where l: "scan_loop fl lines h1 = (later, r1)" by (cases "scan_loop fl lines h1")
        from Cons.prems have "sent = s0 @ later"
          by (simp add: scan_loop_kv [OF kv] \<open>range_metrics fl unboundMetrics key val = Ok s0\<close> Ok l)
        with s0 Cons.IH [OF l] show ?thesis by auto
      next
        case (Err e)
        with Cons.prems s0 show ?thesis
          by (simp add: scan_loop_kv [OF kv] \<open>range_metrics fl unboundMetrics key val = Ok s0\<close>)
      next
        case Panic
        then show ?thesis by (simp add: histogram_line_not_Panic)
      qed
    next
      case (Err e)
      with Cons.prems show ?thesis by (simp add: scan_loop_kv [OF kv])
    next
      case Panic
      then show ?thesis by (simp add: range_metrics_not_Panic)
    qed
  qed
qed

lemma scan_loop_not_Panic: "scan_loop fl lines h \<noteq> (sent, Panic)"
proof (induction lines arbitrary: h sent)
  case Nil
  show ?case by simp
next
  case (Cons line lines)
  show ?case
  proof (cases "length (Split line CHR ''='') = 2")
    case False
    then show ?thesis by (simp add: scan_loop_not_kv)
  next
    case True
    then obtain key val where kv: "Split line CHR ''='' = [key, val]"
      using length_2 by metis
    show ?thesis
      unfolding scan_loop_kv [OF kv]
      using Cons.IH range_metrics_not_Panic [of fl key val] histogram_line_not_Panic [of fl h key val]
      by (auto split: result.splits prod.splits)
  qed
qed

subsection \<open>CollectFromReader and Collect\<close>

lemma cumulative_Nil [simp]: "cumulative [] = []"
  by (simp add: cumulative_def)

lemma start_fields:
  "histogramCount (start fl) = 0" "histogramSum (start fl) = round64 fl 0"
  "histogramBuckets (start fl) = []"
  by (simp_all add: start_def)

lemma CollectFromReader_scan:
  "CollectFromReader fl file =
     (case scan_loop fl (tokens file) (start fl) of
        (sent, Err e) \<Rightarrow> (sent, Err e)
      | (sent, Panic) \<Rightarrow> (sent, Panic)
      | (sent, Ok h) \<Rightarrow>
          (sent @ [ConstHistogram unboundHistogram (histogramCount h) (histogramSum h)
                     (cumulative (histogramBuckets h))],
           case scanErr file of None \<Rightarrow> Ok () | Some e \<Rightarrow> Err e))"
  by (simp add: CollectFromReader_def start_def MustNewConstHistogram_def split: prod.splits result.splits)

lemma CollectFromReader_abort:
  assumes "scan_loop fl xs (start fl) = (sent, Ok h)" and "scan_loop fl (line # ys) h = (s, Err e)"
  shows "CollectFromReader fl \<lparr>tokens = xs @ line # ys, scanErr = se\<rparr> = (sent @ s, Err e)"
  unfolding CollectFromReader_scan by (simp add: scan_loop_append assms)

lemma CollectFromReader_Ok:
  assumes "CollectFromReader fl \<lparr>tokens = xs, scanErr = se\<rparr> = (out, Ok ())"
  shows "\<exists>sent h. scan_loop fl xs (start fl) = (sent, Ok h) \<and> se = None
          \<and> out = sent @ [ConstHistogram unboundHistogram (histogramCount h) (histogramSum h)
                            (cumulative (histogramBuckets h))]"
proof -
  obtain sent r where sl: "scan_loop fl xs (start fl) = (sent, r)" by (cases "scan_loop fl xs (start fl)")
  show ?thesis
  proof (cases r)
    case (Ok h)
    with assms sl show ?thesis
      by (cases se) (simp_all add: CollectFromReader_scan)
  next
    case (Err e)
    with assms sl show ?thesis by (simp add: CollectFromReader_scan)
  next
    case Panic
    with assms sl show ?thesis by (simp add: CollectFromReader_scan)
  qed
qed

lemma CollectFromReader_Err:
  assumes "CollectFromReader fl \<lparr>tokens = xs, scanErr = None\<rparr> = (s, Err e)"
  shows "scan_loop fl xs (start fl) = (s, Err e)"
proof -
  obtain sent r where sl: "scan_loop fl xs (start fl) = (sent, r)" by (cases "scan_loop fl xs (start fl)")
  show ?thesis
  proof (cases r)
    case (Ok h)
    with assms sl show ?thesis by (simp add: CollectFromReader_scan)
  next
    case (Err e)
    with assms sl show ?thesis by (simp add: CollectFromReader_scan)
  next
    case Panic
    with assms sl show ?thesis by (simp add: CollectFromReader_scan)
  qed
qed

lemma up_Some: "up fl x = Some (ConstMetric unboundUpDesc GaugeValue (round64 fl x) [])"
  by (simp add: up_def MustNewConstMetric_def unboundUpDesc_def NewDesc_def)

lemma Collect_outcomes:
  "Collect fl conn =
     (case CollectFromSocket fl conn of
        (sent, Panic) \<Rightarrow> (sent, Panic)
      | (sent, Ok u) \<Rightarrow> (sent @ [ConstMetric unboundUpDesc GaugeValue (round64 fl 1) []], Ok ())
      | (sent, Err e) \<Rightarrow> (sent @ [ConstMetric unboundUpDesc GaugeValue (round64 fl 0) []], Ok ()))"
  by (simp add: Collect_def up_Some split: prod.splits result.splits)

subsection \<open>The accumulator\<close>

lemma fold_count:
  "histogramCount (foldl (observe fl) h ts) = histogramCount h + sum_list (map observations ts)"
  by (induction ts arbitrary: h) (simp_all add: observe_def add.assoc)

lemma fold_sum:
  "histogramSum (foldl (observe fl) h ts) =
     foldl (\<lambda>s t. fadd fl s (contribution fl t)) (histogramSum h) ts"
  by (induction ts arbitrary: h) (simp_all add: observe_def)

lemma fold_buckets:
  "map_of (histogramBuckets (foldl (observe fl) h ts)) =
     map_of (histogramBuckets h) ++ map_of (rev (map (\<lambda>t. (upper_bound t, observations t)) ts))"
proof (induction ts arbitrary: h)
  case Nil
  show ?case by simp
next
  case (Cons t ts)
  let ?M = "map_of (rev (map (\<lambda>t. (upper_bound t, observations t)) ts))"
  have 1: "map_of (histogramBuckets (observe fl h t))
         = (map_of (histogramBuckets h))(upper_bound t \<mapsto> observations t)"
    by (simp add: observe_def update_conv')
  have 2: "m(k \<mapsto> v) ++ n = m ++ ([k \<mapsto> v] ++ n)" for m n :: "'a \<rightharpoonup> uint64" and k v
    by (rule ext) (simp add: map_add_def split: option.splits)
  have "map_of (histogramBuckets (foldl (observe fl) h (t # ts)))
      = map_of (histogramBuckets (observe fl h t)) ++ ?M"
    by (simp only: foldl.simps Cons)
  also have "\<dots> = map_of (histogramBuckets h) ++ ([upper_bound t \<mapsto> observations t] ++ ?M)"
    unfolding 1 by (rule 2)
  also have "[upper_bound t \<mapsto> observations t] ++ ?M
      = map_of (rev (map (\<lambda>t. (upper_bound t, observations t)) (t # ts)))"
    by simp
  finally show ?case .
qed

lemma last_wins:
  assumes "upper_bound t \<notin> upper_bound ` set ts'"
  shows "map_of (rev (map (\<lambda>t. (upper_bound t, observations t)) (ts @ t # ts'))) (upper_bound t) = Some (observations t)"
proof -
  have "map_of (rev (map (\<lambda>t. (upper_bound t, observations t)) ts')) (upper_bound t) = None"
    using assms by (force simp: map_of_eq_None_iff)
  then show ?thesis by (simp add: map_add_def)
qed

lemma update_fresh: "k \<notin> fst ` set al \<Longrightarrow> AList.update k v al = al @ [(k, v)]"
  by (induction al) auto

lemma fold_buckets_fresh:
  assumes "distinct (map upper_bound ts)"
    and "\<forall>t \<in> set ts. upper_bound t \<notin> fst ` set (histogramBuckets h)"
  shows "histogramBuckets (foldl (observe fl) h ts)
       = histogramBuckets h @ map (\<lambda>t. (upper_bound t, observations t)) ts"
  using assms
proof (induction ts arbitrary: h)
  case Nil
  show ?case by simp
next
  case (Cons t ts)
  have b: "histogramBuckets (observe fl h t) = histogramBuckets h @ [(upper_bound t, observations t)]"
    using Cons.prems(2) by (simp add: observe_def update_fresh)
  have "upper_bound t' \<noteq> upper_bound t" if "t' \<in> set ts" for t'
  proof
    assume "upper_bound t' = upper_bound t"
    with that have "upper_bound t \<in> upper_bound ` set ts" by (metis imageI)
    with Cons.prems(1) show False by simp
  qed
  moreover have "upper_bound t' \<notin> fst ` set (histogramBuckets h)" if "t' \<in> set ts" for t'
    using Cons.prems(2) that by simp
  ultimately have "\<forall>t' \<in> set ts. upper_bound t' \<notin> fst ` set (histogramBuckets (observe fl h t))"
    unfolding b by simp
  with Cons.IH [of "observe fl h t"] Cons.prems(1) show ?case
    by (simp add: b)
qed

lemma buckets_of_distinct:
  assumes "distinct (map upper_bound ts)"
  shows "histogramBuckets (foldl (observe fl) (start fl) ts)
       = map (\<lambda>t. (upper_bound t, observations t)) ts"
  using fold_buckets_fresh [OF assms, of "start fl" fl] by (simp add: start_fields)

subsection \<open>The cumulative buckets\<close>

lemma cumulate_lookup:
  assumes "distinct ks" "sorted ks"
  shows "map_of (cumulate ks prev b) k =
     (if k \<in> set ks then Some (prev + sum_list (map (bucket b) (filter (\<lambda>k'. k' \<le> k) ks)))
      else map_of b k)"
  using assms
proof (induction ks arbitrary: prev b)
  case Nil
  show ?case by simp
next
  case (Cons i ks)
  let ?v = "bucket b i + prev"
  let ?b = "AList.update i ?v b"
  from Cons.prems have d: "distinct ks" "sorted ks" and i: "i \<notin> set ks" and le: "\<forall>x \<in> set ks. i \<le> x"
    by simp_all
  have same: "bucket (AList.update i v b) k' = bucket b k'" if "k' \<noteq> i" for k' v
    using that by (simp add: bucket_def update_conv')
  have IH: "map_of (cumulate ks ?v ?b) k =
     (if k \<in> set ks then Some (?v + sum_list (map (bucket ?b) (filter (\<lambda>k'. k' \<le> k) ks)))
      else map_of ?b k)"
    by (rule Cons.IH [OF d])
  have m: "map (bucket (AList.update i v b)) (filter (\<lambda>k'. k' \<le> k) ks)
         = map (bucket b) (filter (\<lambda>k'. k' \<le> k) ks)" for v
    using i by (intro map_cong refl same) auto
  show ?case
  proof (cases "k = i")
    case True
    have "filter (\<lambda>k'. k' \<le> i) ks = []"
      using le i by (auto simp: filter_empty_conv)
    with True i IH show ?thesis by (simp add: update_conv')
  next
    case False
    show ?thesis
    proof (cases "k \<in> set ks")
      case True
      with le have "i \<le> k" by simp
      with True False IH show ?thesis by (simp add: m algebra_simps)
    next
      case False
      with \<open>k \<noteq> i\<close> IH show ?thesis by (simp add: update_conv')
    qed
  qed
qed

lemma sum_list_perm:
  fixes g :: "'a \<Rightarrow> uint64"
  assumes "mset xs = mset ys"
  shows "sum_list (map g xs) = sum_list (map g ys)"
proof -
  have "sum_list (map g xs) = sum_mset (image_mset g (mset xs))"
    by (simp add: sum_mset_sum_list [symmetric])
  also have "\<dots> = sum_mset (image_mset g (mset ys))" by (simp add: assms)
  also have "\<dots> = sum_list (map g ys)" by (simp add: sum_mset_sum_list [symmetric])
  finally show ?thesis .
qed

lemma cumulative_lookup:
  assumes "distinct (map fst b)"
  shows "map_of (cumulative b) k =
     (if k \<in> fst ` set b
      then Some (sum_list (map (bucket b) (filter (\<lambda>k'. k' \<le> k) (map fst b))))
      else None)"
proof -
  let ?ks = "sort (map fst b)"
  have "distinct ?ks" "sorted ?ks" using assms by simp_all
  from cumulate_lookup [OF this, of 0 b k]
  have 1: "map_of (cumulative b) k =
     (if k \<in> fst ` set b then Some (sum_list (map (bucket b) (filter (\<lambda>k'. k' \<le> k) ?ks)))
      else map_of b k)"
    by (simp add: cumulative_def)
  have "mset (filter (\<lambda>k'. k' \<le> k) ?ks) = mset (filter (\<lambda>k'. k' \<le> k) (map fst b))"
    by simp
  from sum_list_perm [OF this]
  have 2: "sum_list (map (bucket b) (filter (\<lambda>k'. k' \<le> k) ?ks))
         = sum_list (map (bucket b) (filter (\<lambda>k'. k' \<le> k) (map fst b)))" .
  have 3: "map_of b k = None" if "k \<notin> fst ` set b"
    using that by (simp add: map_of_eq_None_iff)
  show ?thesis unfolding 1 2 using 3 by simp
qed

lemma cumulative_of_lines:
  assumes d: "distinct (map upper_bound ts)"
  shows "map_of (cumulative (map (\<lambda>t. (upper_bound t, observations t)) ts)) k =
     (if k \<in> upper_bound ` set ts
      then Some (sum_list (map observations (filter (\<lambda>t. upper_bound t \<le> k) ts)))
      else None)"
proof -
  let ?b = "map (\<lambda>t. (upper_bound t, observations t)) ts"
  have keys: "map fst ?b = map upper_bound ts" by (simp add: comp_def)
  have dk: "distinct (map fst ?b)" using d by (simp only: keys)
  have g: "bucket ?b (upper_bound t) = observations t" if "t \<in> set ts" for t
  proof -
    have "(upper_bound t, observations t) \<in> set ?b" using that by auto
    from map_of_is_SomeI [OF dk this] show ?thesis by (simp add: bucket_def)
  qed
  have "map (bucket ?b) (filter (\<lambda>k'. k' \<le> k) (map upper_bound ts))
      = map (\<lambda>t. bucket ?b (upper_bound t)) (filter (\<lambda>t. upper_bound t \<le> k) ts)"
    by (simp add: filter_map comp_def)
  also have "\<dots> = map observations (filter (\<lambda>t. upper_bound t \<le> k) ts)"
    by (intro map_cong refl g) simp
  finally have m: "map (bucket ?b) (filter (\<lambda>k'. k' \<le> k) (map fst ?b))
      = map observations (filter (\<lambda>t. upper_bound t \<le> k) ts)"
    by (simp only: keys)
  have s: "fst ` set ?b = upper_bound ` set ts" by (simp add: image_image)
  show ?thesis
    unfolding cumulative_lookup [OF dk] m s ..
qed

lemma cumulative_two:
  assumes "(u1 :: 'f :: linorder) < u2"
  shows "cumulative [(u1, a), (u2, b)] = [(u1, a), (u2, b + a)]"
proof -
  have le: "u1 \<le> u2" and ne: "u1 \<noteq> u2" "u2 \<noteq> u1" using assms by auto
  have "sort [u1, u2] = [u1, u2]" using le by simp
  then show ?thesis using ne by (simp add: cumulative_def bucket_def)
qed

lemma unat_sum_list:
  fixes ws :: "uint64 list"
  assumes "sum_list (map unat ws) < 2 ^ 64"
  shows "unat (sum_list ws) = sum_list (map unat ws)"
  using assms
proof (induction ws)
  case Nil
  show ?case by simp
next
  case (Cons w ws)
  from Cons.prems have "sum_list (map unat ws) < 2 ^ 64" by simp
  then have IH: "unat (sum_list ws) = sum_list (map unat ws)" by (rule Cons.IH)
  from Cons.prems IH have "unat w + unat (sum_list ws) < 2 ^ LENGTH(64)" by simp
  then have "unat (w + sum_list ws) = unat w + unat (sum_list ws)"
    by (rule unat_add_lem [THEN iffD1])
  with IH show ?case by simp
qed

lemma unat_partial_sum:
  assumes "sum_list (map (\<lambda>t. unat (observations t)) ts) < 2 ^ 64"
  shows "unat (sum_list (map observations (filter P ts)))
       = sum_list (map (\<lambda>t. unat (observations t)) (filter P ts))"
proof -
  have "sum_list (map (\<lambda>t. unat (observations t)) (filter P ts))
      \<le> sum_list (map (\<lambda>t. unat (observations t)) ts)"
    by (rule sum_list_filter_le_nat)
  with assms have "sum_list (map unat (map observations (filter P ts))) < 2 ^ 64"
    by (simp add: comp_def)
  from unat_sum_list [OF this] show ?thesis by (simp add: comp_def)
qed

lemma partial_sum_mono:
  fixes ts :: "('f :: linorder \<times> 'f \<times> uint64) list"
  assumes "k1 \<le> k2"
  shows "sum_list (map (\<lambda>t. unat (observations t)) (filter (\<lambda>t. upper_bound t \<le> k1) ts))
       \<le> sum_list (map (\<lambda>t. unat (observations t)) (filter (\<lambda>t. upper_bound t \<le> k2) ts))"
proof -
  have "filter (\<lambda>t. upper_bound t \<le> k1) ts
      = filter (\<lambda>t. upper_bound t \<le> k1) (filter (\<lambda>t. upper_bound t \<le> k2) ts)"
    using assms by (auto intro: filter_cong)
  then show ?thesis
    by (metis sum_list_filter_le_nat)
qed

text \<open>
  The converse: cumulated values that do not decrease leave no room for a sum that wraps.
  First for lines sorted by their key, then for any order.
\<close>

lemma sorted_sums_no_wrap:
  fixes u :: "'a \<Rightarrow> 'k :: linorder" and n :: "'a \<Rightarrow> uint64"
  assumes "sorted (map u ss)" and "distinct (map u ss)"
    and "\<And>x y. x \<in> set ss \<Longrightarrow> y \<in> set ss \<Longrightarrow> u x \<le> u y \<Longrightarrow>
           sum_list (map n (filter (\<lambda>t. u t \<le> u x) ss)) \<le> sum_list (map n (filter (\<lambda>t. u t \<le> u y) ss))"
  shows "sum_list (map (\<lambda>t. unat (n t)) ss) < 2 ^ 64"
  using assms
proof (induction ss rule: rev_induct)
  case Nil
  show ?case by simp
next
  case (snoc z ss)
  from snoc.prems(1) have srt: "sorted (map u ss)" and le: "\<forall>t \<in> set ss. u t \<le> u z"
    by (simp_all add: sorted_append)
  from snoc.prems(2) have dst: "distinct (map u ss)" and nz: "u z \<notin> u ` set ss"
    by simp_all
  have ne: "\<forall>t \<in> set ss. u t \<noteq> u z" using nz by (metis imageI)
  have below: "filter (\<lambda>t. u t \<le> u x) (ss @ [z]) = filter (\<lambda>t. u t \<le> u x) ss" if "x \<in> set ss" for x
  proof -
    from that le ne have "u x < u z" by (simp add: order.strict_iff_order)
    then show ?thesis by simp
  qed
  have all: "filter (\<lambda>t. u t \<le> u z) (ss @ [z]) = ss @ [z]"
    using le by (simp add: filter_id_conv)
  have "sum_list (map n (filter (\<lambda>t. u t \<le> u x) ss)) \<le> sum_list (map n (filter (\<lambda>t. u t \<le> u y) ss))"
    if "x \<in> set ss" "y \<in> set ss" "u x \<le> u y" for x y
    using snoc.prems(3) [of x y] that by (simp only: below [OF that(1)] below [OF that(2)]) simp
  with srt dst have IH: "sum_list (map (\<lambda>t. unat (n t)) ss) < 2 ^ 64"
    by (rule snoc.IH)
  then have "sum_list (map unat (map n ss)) < 2 ^ 64" by (simp add: comp_def)
  from unat_sum_list [OF this] have eq: "unat (sum_list (map n ss)) = sum_list (map (\<lambda>t. unat (n t)) ss)"
    by (simp add: comp_def)
  show ?case
  proof (cases "ss = []")
    case True
    have "unat (n z) < 2 ^ LENGTH(64)" by (rule unsigned_less)
    with True show ?thesis by simp
  next
    case False
    then have l: "last ss \<in> set ss" by simp
    have "filter (\<lambda>t. u t \<le> u (last ss)) ss = ss"
    proof -
      have "u t \<le> u (last ss)" if "t \<in> set ss" for t
      proof -
        from that obtain i where i: "i < length ss" "t = ss ! i" by (auto simp: in_set_conv_nth)
        have "map u ss ! i \<le> map u ss ! (length ss - 1)"
          using srt i(1) by (intro sorted_nth_mono) auto
        with i False show ?thesis by (simp add: last_conv_nth)
      qed
      then show ?thesis by (simp add: filter_id_conv)
    qed
    with below [OF l] have a: "filter (\<lambda>t. u t \<le> u (last ss)) (ss @ [z]) = ss" by simp
    have "last ss \<in> set (ss @ [z])" "z \<in> set (ss @ [z])" "u (last ss) \<le> u z"
      using l le by simp_all
    from snoc.prems(3) [OF this]
    have "sum_list (map n ss) \<le> sum_list (map n ss) + n z"
      unfolding a all by simp
    then have "unat (sum_list (map n ss)) + unat (n z) < 2 ^ LENGTH(64)"
      by (simp add: no_olen_add_nat)
    with eq show ?thesis by simp
  qed
qed

lemma sums_no_wrap:
  fixes u :: "'a \<Rightarrow> 'k :: linorder" and n :: "'a \<Rightarrow> uint64"
  assumes d: "distinct (map u ts)"
    and mono: "\<And>x y. x \<in> set ts \<Longrightarrow> y \<in> set ts \<Longrightarrow> u x \<le> u y \<Longrightarrow>
           sum_list (map n (filter (\<lambda>t. u t \<le> u x) ts)) \<le> sum_list (map n (filter (\<lambda>t. u t \<le> u y) ts))"
  shows "sum_list (map (\<lambda>t. unat (n t)) ts) < 2 ^ 64"
proof -
  let ?ss = "sort_key u ts"
  have m: "mset ?ss = mset ts" by simp
  have s: "sorted (map u ?ss)" by (rule sorted_sort_key)
  have "mset (map u ?ss) = mset (map u ts)" by simp
  then have d': "distinct (map u ?ss)" using d by (metis mset_eq_imp_distinct_iff)
  have f: "sum_list (map n (filter P ?ss)) = sum_list (map n (filter P ts))" for P
    by (rule sum_list_perm) simp
  have "sum_list (map n (filter (\<lambda>t. u t \<le> u x) ?ss)) \<le> sum_list (map n (filter (\<lambda>t. u t \<le> u y) ?ss))"
    if "x \<in> set ?ss" "y \<in> set ?ss" "u x \<le> u y" for x y
    unfolding f using mono [of x y] that by simp
  from sorted_sums_no_wrap [OF s d' this]
  have "sum_list (map (\<lambda>t. unat (n t)) ?ss) < 2 ^ 64" .
  moreover have "sum_list (map (\<lambda>t. unat (n t)) ?ss) = sum_list (map (\<lambda>t. unat (n t)) ts)"
  proof -
    have "sum_list (map (\<lambda>t. unat (n t)) ?ss) = sum_mset (image_mset (\<lambda>t. unat (n t)) (mset ?ss))"
      by (simp add: sum_mset_sum_list [symmetric])
    also have "\<dots> = sum_list (map (\<lambda>t. unat (n t)) ts)"
      unfolding m by (simp add: sum_mset_sum_list [symmetric])
    finally show ?thesis .
  qed
  ultimately show ?thesis by simp
qed

subsection \<open>Concrete lines\<close>

text \<open>
  The lines and values of the examples below, evaluated once: in the instance \<open>exact\<close>,
  or for every arithmetic where the arithmetic does not matter.
\<close>

lemma exact_fields:
  "round64 exact q = q" "pos_inf exact = 2 ^ 1024"
  "fadd exact x y = x + y" "fsub exact x y = x - y" "fmul exact x y = x * y"
  by (simp_all add: exact_def)

lemma start_exact:
  "start exact = \<lparr>histogramCount = 0, histogramSum = 0, histogramBuckets = []\<rparr>"
  by (simp add: start_def exact_def)

lemma small_below_overflow: "q \<le> 4 \<Longrightarrow> q < overflow64"
proof -
  have "(4 :: rat) < 2 ^ 1024 - 2 ^ 970" by simp
  then show "q \<le> 4 \<Longrightarrow> q < overflow64" by (simp add: overflow64_def)
qed

lemma ParseFloat_exact_number:
  assumes "digits a" "digits b" "dec_value (a, b) < overflow64"
  shows "ParseFloat exact (a @ ''.'' @ b) = (dec_value (a, b), None)"
  unfolding ParseFloat_number [OF assms(1,2)] using assms(3) by (simp add: exact_def)

lemma ParseFloat_exact_values:
  "ParseFloat exact ''0.0'' = (0, None)"
  "ParseFloat exact ''0.5'' = (1 / 2, None)"
  "ParseFloat exact ''1.0'' = (1, None)"
  "ParseFloat exact ''2.0'' = (2, None)"
proof -
  have d: "digits ''0''" "digits ''1''" "digits ''2''" "digits ''5''"
    by (simp_all add: digits_def is_digit_def)
  have v: "dec_value (''0'', ''0'') = 0" "dec_value (''0'', ''5'') = 1 / 2"
    "dec_value (''1'', ''0'') = 1" "dec_value (''2'', ''0'') = 2"
    by (simp_all add: dec_value_def decimal_def digit_val_def)
  have b: "dec_value (''0'', ''0'') < overflow64" "dec_value (''0'', ''5'') < overflow64"
    "dec_value (''1'', ''0'') < overflow64" "dec_value (''2'', ''0'') < overflow64"
    unfolding v by (rule small_below_overflow, simp)+
  show "ParseFloat exact ''0.0'' = (0, None)"
    using ParseFloat_exact_number [OF d(1) d(1) b(1)] by (simp add: v)
  show "ParseFloat exact ''0.5'' = (1 / 2, None)"
    using ParseFloat_exact_number [OF d(1) d(4) b(2)] by (simp add: v)
  show "ParseFloat exact ''1.0'' = (1, None)"
    using ParseFloat_exact_number [OF d(2) d(1) b(3)] by (simp add: v)
  show "ParseFloat exact ''2.0'' = (2, None)"
    using ParseFloat_exact_number [OF d(3) d(1) b(4)] by (simp add: v)
qed

lemma ParseFloat_exact_abc:
  "ParseFloat exact ''abc'' = (0, Some (NumError ''ParseFloat'' ''abc'' ErrSyntax))"
  by (simp add: ParseFloat_def dec_split_def exact_def is_digit_def)

lemma ParseFloat_micro:
  "ParseFloat fl ''0.000000'' = (round64 fl 0, None)"
  "ParseFloat fl ''0.000001'' = (round64 fl (1 / 1000000), None)"
  "ParseFloat fl ''0.000002'' = (round64 fl (2 / 1000000), None)"
proof -
  have d: "digits ''0''" "digits ''000000''" "digits ''000001''" "digits ''000002''"
    by (simp_all add: digits_def is_digit_def)
  have v: "dec_value (''0'', ''000000'') = 0" "dec_value (''0'', ''000001'') = 1 / 1000000"
    "dec_value (''0'', ''000002'') = 2 / 1000000"
    by (simp_all add: dec_value_def decimal_def digit_val_def)
  have b: "dec_value (''0'', ''000000'') < overflow64" "dec_value (''0'', ''000001'') < overflow64"
    "dec_value (''0'', ''000002'') < overflow64"
    unfolding v by (rule small_below_overflow, simp)+
  show "ParseFloat fl ''0.000000'' = (round64 fl 0, None)"
    using ParseFloat_number [OF d(1) d(2), of fl] b(1) by (simp add: v)
  show "ParseFloat fl ''0.000001'' = (round64 fl (1 / 1000000), None)"
    using ParseFloat_number [OF d(1) d(3), of fl] b(2) by (simp add: v)
  show "ParseFloat fl ''0.000002'' = (round64 fl (2 / 1000000), None)"
    using ParseFloat_number [OF d(1) d(4), of fl] b(3) by (simp only: v) simp
qed

lemma ParseUint_values:
  "ParseUint ''2'' = (2, None)" "ParseUint ''3'' = (3, None)"
  "ParseUint ''9223372036854775808'' = (9223372036854775808, None)"
  "ParseUint ''5'' = (5, None)"
  by (simp_all add: ParseUint_def is_digit_def digit_val_def cutoff_def maxVal_def Let_def)

lemma histogram_keys:
  "FindStringSubmatch histogramPattern ''histogram.0.0.to.1.0'' = Some [''histogram.0.0.to.1.0'', ''0.0'', ''1.0'']"
  "FindStringSubmatch histogramPattern ''histogram.0.5.to.1.0'' = Some [''histogram.0.5.to.1.0'', ''0.5'', ''1.0'']"
  "FindStringSubmatch histogramPattern ''histogram.1.0.to.2.0'' = Some [''histogram.1.0.to.2.0'', ''1.0'', ''2.0'']"
  by (simp_all add: FindStringSubmatch_def histogramPattern_def str_def is_digit_def)

lemma micro_keys:
  "FindStringSubmatch histogramPattern ''histogram.0.000000.to.0.000001''
     = Some [''histogram.0.000000.to.0.000001'', ''0.000000'', ''0.000001'']"
  "FindStringSubmatch histogramPattern ''histogram.0.000001.to.0.000002''
     = Some [''histogram.0.000001.to.0.000002'', ''0.000001'', ''0.000002'']"
  by (simp_all add: FindStringSubmatch_def histogramPattern_def str_def is_digit_def)

lemma time_up_any:
  "range_metrics fl unboundMetrics ''time.up'' val =
     (case ParseFloat fl val of
        (v, Some e) \<Rightarrow> Err e
      | (v, None) \<Rightarrow>
          Ok [ConstMetric
                \<lparr>fqName = ''unbound_time_up_seconds_total'',
                 helpText = ''Uptime since server boot in seconds.'',
                 variableLabels = []\<rparr>
                CounterValue v []])"
  by (simp add: unboundMetrics_def newUnboundMetric_def NewDesc_def BuildFQName_def
        FindStringSubmatch_def str_def MustNewConstMetric_def split: prod.splits option.splits)

lemma time_up_exact:
  "range_metrics exact unboundMetrics ''time.up'' ''1'' =
     Ok [ConstMetric
           \<lparr>fqName = ''unbound_time_up_seconds_total'',
            helpText = ''Uptime since server boot in seconds.'',
            variableLabels = []\<rparr>
           CounterValue 1 []]"
  by (simp add: unboundMetrics_def newUnboundMetric_def NewDesc_def BuildFQName_def
        FindStringSubmatch_def str_def is_digit_def ParseFloat_def dec_split_def exact_def
        decimal_def digit_val_def overflow64_def MustNewConstMetric_def)

lemma time_up_line_exact:
  "scan_loop exact (''time.up=1'' # rest) h =
     (case scan_loop exact rest h of
        (later, r) \<Rightarrow>
          (ConstMetric
             \<lparr>fqName = ''unbound_time_up_seconds_total'',
              helpText = ''Uptime since server boot in seconds.'',
              variableLabels = []\<rparr>
             CounterValue 1 [] # later, r))"
proof -
  have kv: "Split ''time.up=1'' CHR ''='' = [''time.up'', ''1'']" by simp
  have h: "histogram_line exact h ''time.up'' ''1'' = Ok h"
    by (rule histogram_line_no_match) (simp add: histogram_first_char)
  show ?thesis
    unfolding scan_loop_kv [OF kv] time_up_exact h by simp
qed

lemma time_up_matches:
  "\<exists>m \<in> set unboundMetrics. FindStringSubmatch (pattern m) ''time.up'' \<noteq> None"
  by (rule find_not_None)
     (simp add: unboundMetrics_def newUnboundMetric_def FindStringSubmatch_def str_def)

lemma digits_one_zeros: "digits (''1'' @ replicate n CHR ''0'')"
  by (simp add: digits_def is_digit_def list_all_iff)

lemma decimal_one_zeros: "decimal (''1'' @ replicate n CHR ''0'') = 10 ^ n"
  unfolding decimal_append decimal_zeros by (simp add: decimal_def digit_val_def)

section \<open>The claims\<close>

subsection \<open>C1: the histogram is cumulative\<close>

text \<open>
  C1, as the code has it. Take a scrape that succeeds on a stream in which no two
  recognised histogram lines have the same upper bound after the conversion to
  \<^verbatim>\<open>float64\<close> (two bounds that are written differently and convert to one \<^verbatim>\<open>float64\<close>
  are one key of the map). Then the histogram that is sent has one bucket for each upper
  bound; the value of a bucket is the sum of the counts of the lines whose upper bound is
  at most the bound of the bucket, the count of the histogram is the sum of all the
  counts, both sums in \<^verbatim>\<open>uint64\<close>; and the bucket of the largest bound holds the count
  of the histogram. The sums of \<^verbatim>\<open>uint64\<close> wrap around at \<open>2^64\<close>: the values of the
  buckets do not decrease as the bound increases exactly when the counts add up to less
  than \<open>2^64\<close>, and then every bucket and the count of the histogram are those sums as
  natural numbers.
\<close>

theorem cumulative_counts:
  assumes "CollectFromReader fl \<lparr>tokens = lines, scanErr = None\<rparr> = (out, Ok ())"
    and "distinct (map upper_bound (recognised fl lines))"
  shows "\<exists>sent c s b.
        out = sent @ [ConstHistogram unboundHistogram c s b]
      \<and> (\<forall>m \<in> set sent. \<exists>d t v ls. m = ConstMetric d t v ls)
      \<and> dom (map_of b) = upper_bound ` set (recognised fl lines)
      \<and> (\<forall>k \<in> dom (map_of b).
            bucket b k
            = sum_list (map observations (filter (\<lambda>t. upper_bound t \<le> k) (recognised fl lines))))
      \<and> c = sum_list (map observations (recognised fl lines))
      \<and> (recognised fl lines \<noteq> [] \<longrightarrow> bucket b (Max (dom (map_of b))) = c)
      \<and> ((\<forall>k1 \<in> dom (map_of b). \<forall>k2 \<in> dom (map_of b). k1 \<le> k2 \<longrightarrow> bucket b k1 \<le> bucket b k2)
           \<longleftrightarrow> sum_list (map (\<lambda>t. unat (observations t)) (recognised fl lines)) < 2 ^ 64)
      \<and> (sum_list (map (\<lambda>t. unat (observations t)) (recognised fl lines)) < 2 ^ 64 \<longrightarrow>
            (\<forall>k \<in> dom (map_of b).
               unat (bucket b k)
               = sum_list (map (\<lambda>t. unat (observations t))
                               (filter (\<lambda>t. upper_bound t \<le> k) (recognised fl lines))))
          \<and> unat c = sum_list (map (\<lambda>t. unat (observations t)) (recognised fl lines)))"
proof -
  let ?ts = "recognised fl lines"
  let ?n = "\<lambda>t. unat (observations t)"
  from CollectFromReader_Ok [OF assms(1)] obtain sent h where
    sl: "scan_loop fl lines (start fl) = (sent, Ok h)"
    and out: "out = sent @ [ConstHistogram unboundHistogram (histogramCount h) (histogramSum h)
                            (cumulative (histogramBuckets h))]"
    by blast
  from scan_loop_accumulates [OF sl] have h: "h = foldl (observe fl) (start fl) ?ts" .
  define b where "b = cumulative (histogramBuckets h)"
  define c where "c = histogramCount h"
  have hb: "histogramBuckets h = map (\<lambda>t. (upper_bound t, observations t)) ?ts"
    unfolding h by (rule buckets_of_distinct [OF assms(2)])
  have look: "map_of b k =
     (if k \<in> upper_bound ` set ?ts
      then Some (sum_list (map observations (filter (\<lambda>t. upper_bound t \<le> k) ?ts)))
      else None)" for k
    unfolding b_def hb by (rule cumulative_of_lines [OF assms(2)])
  have dom: "dom (map_of b) = upper_bound ` set ?ts"
    by (auto simp: look dom_def)
  have val: "bucket b k = sum_list (map observations (filter (\<lambda>t. upper_bound t \<le> k) ?ts))"
    if "k \<in> dom (map_of b)" for k
    using that unfolding dom by (simp add: bucket_def look)
  have c: "c = sum_list (map observations ?ts)"
    unfolding c_def h fold_count by (simp add: start_fields)
  have top: "bucket b (Max (dom (map_of b))) = c" if ne: "?ts \<noteq> []"
  proof -
    have fin: "finite (dom (map_of b))" "dom (map_of b) \<noteq> {}"
      using ne unfolding dom by simp_all
    then have in_dom: "Max (dom (map_of b)) \<in> dom (map_of b)" by (rule Max_in)
    have "upper_bound t \<le> Max (dom (map_of b))" if "t \<in> set ?ts" for t
      using that fin(1) unfolding dom by (intro Max_ge) auto
    then have "filter (\<lambda>t. upper_bound t \<le> Max (dom (map_of b))) ?ts = ?ts"
      by (simp add: filter_id_conv)
    with val [OF in_dom] c show ?thesis by simp
  qed
  have nat: "unat (bucket b k) = sum_list (map ?n (filter (\<lambda>t. upper_bound t \<le> k) ?ts))"
    if "sum_list (map ?n ?ts) < 2 ^ 64" "k \<in> dom (map_of b)" for k
    unfolding val [OF that(2)] by (rule unat_partial_sum [OF that(1)])
  have total: "unat c = sum_list (map ?n ?ts)" if "sum_list (map ?n ?ts) < 2 ^ 64"
  proof -
    have "unat c = sum_list (map ?n (filter (\<lambda>t. True) ?ts))"
      unfolding c using unat_partial_sum [OF that, of "\<lambda>t. True"] by simp
    then show ?thesis by simp
  qed
  have mono: "bucket b k1 \<le> bucket b k2"
    if "sum_list (map ?n ?ts) < 2 ^ 64" "k1 \<in> dom (map_of b)" "k2 \<in> dom (map_of b)" "k1 \<le> k2"
    for k1 k2
    unfolding word_le_nat_alt nat [OF that(1,2)] nat [OF that(1,3)]
    by (rule partial_sum_mono [OF that(4)])
  have wrap: "sum_list (map ?n ?ts) < 2 ^ 64"
    if m: "\<forall>k1 \<in> dom (map_of b). \<forall>k2 \<in> dom (map_of b). k1 \<le> k2 \<longrightarrow> bucket b k1 \<le> bucket b k2"
  proof (rule sums_no_wrap [OF assms(2)])
    fix x y
    assume x: "x \<in> set ?ts" and y: "y \<in> set ?ts" and le: "upper_bound x \<le> upper_bound y"
    from x y have kx: "upper_bound x \<in> dom (map_of b)" and ky: "upper_bound y \<in> dom (map_of b)"
      unfolding dom by simp_all
    from m kx ky le have "bucket b (upper_bound x) \<le> bucket b (upper_bound y)" by blast
    then show "sum_list (map observations (filter (\<lambda>t. upper_bound t \<le> upper_bound x) ?ts))
        \<le> sum_list (map observations (filter (\<lambda>t. upper_bound t \<le> upper_bound y) ?ts))"
      unfolding val [OF kx] val [OF ky] .
  qed
  have iff: "(\<forall>k1 \<in> dom (map_of b). \<forall>k2 \<in> dom (map_of b). k1 \<le> k2 \<longrightarrow> bucket b k1 \<le> bucket b k2)
           \<longleftrightarrow> sum_list (map ?n ?ts) < 2 ^ 64"
    using wrap mono by blast
  have vals: "\<forall>k \<in> dom (map_of b).
      bucket b k = sum_list (map observations (filter (\<lambda>t. upper_bound t \<le> k) ?ts))"
    using val by blast
  have nats: "sum_list (map ?n ?ts) < 2 ^ 64 \<longrightarrow>
      (\<forall>k \<in> dom (map_of b).
         unat (bucket b k) = sum_list (map ?n (filter (\<lambda>t. upper_bound t \<le> k) ?ts)))
      \<and> unat c = sum_list (map ?n ?ts)"
    using nat total by blast
  have tops: "?ts \<noteq> [] \<longrightarrow> bucket b (Max (dom (map_of b))) = c" using top by blast
  have o: "out = sent @ [ConstHistogram unboundHistogram c (histogramSum h) b]"
    unfolding b_def c_def by (rule out)
  show ?thesis
    apply (rule exI [of _ sent], rule exI [of _ c], rule exI [of _ "histogramSum h"], rule exI [of _ b])
    apply (rule conjI [OF o conjI [OF scan_loop_samples [OF sl] conjI [OF dom conjI [OF vals
             conjI [OF c conjI [OF tops conjI [OF iff nats]]]]]]])
    done
qed

text \<open>Two lines with the upper bounds 1.0 and 2.0 and the counts 2 and 3.\<close>

theorem cumulative_counts_witness:
  "CollectFromReader exact
     \<lparr>tokens = [''histogram.0.0.to.1.0=2'', ''histogram.1.0.to.2.0=3''], scanErr = None\<rparr>
     = ([ConstHistogram unboundHistogram 5 5 [(1, 2), (2, 5)]], Ok ())
   \<and> recognised exact [''histogram.0.0.to.1.0=2'', ''histogram.1.0.to.2.0=3''] = [(0, 1, 2), (1, 2, 3)]
   \<and> distinct (map upper_bound
         (recognised exact [''histogram.0.0.to.1.0=2'', ''histogram.1.0.to.2.0=3'']))
   \<and> sum_list (map (\<lambda>t. unat (observations t))
         (recognised exact [''histogram.0.0.to.1.0=2'', ''histogram.1.0.to.2.0=3''])) < 2 ^ 64
   \<and> (\<exists>sent c s b.
        [ConstHistogram unboundHistogram 5 5 [(1, 2), (2, 5)]] = sent @ [ConstHistogram unboundHistogram c s b]
      \<and> dom (map_of b) = {1 :: rat, 2}
      \<and> c = 5
      \<and> bucket b (Max (dom (map_of b))) = c
      \<and> bucket b 1 \<le> bucket b 2
      \<and> unat (bucket b 1) = 2
      \<and> unat (bucket b 2) = 5
      \<and> unat c = 5)"
proof -
  let ?l1 = "''histogram.0.0.to.1.0=2''" and ?l2 = "''histogram.1.0.to.2.0=3''"
  let ?n = "\<lambda>t :: rat \<times> rat \<times> uint64. unat (observations t)"
  have kv1: "Split ?l1 CHR ''='' = [''histogram.0.0.to.1.0'', ''2'']" by simp
  have kv2: "Split ?l2 CHR ''='' = [''histogram.1.0.to.2.0'', ''3'']" by simp
  note s1 = bucket_line_step [OF kv1 histogram_keys(1) ParseUint_values(1), of exact]
  note s2 = bucket_line_step [OF kv2 histogram_keys(3) ParseUint_values(2), of exact]
  have o: "observe exact (observe exact (start exact) (0, 1, 2)) (1, 2, 3)
         = \<lparr>histogramCount = 5, histogramSum = 5, histogramBuckets = [(1, 2), (2, 3)]\<rparr>"
    by (simp add: observe_def start_exact contribution_def upper_bound_def observations_def
          float64_def exact_fields)
  have sl: "scan_loop exact [?l1, ?l2] (start exact)
         = ([], Ok \<lparr>histogramCount = 5, histogramSum = 5, histogramBuckets = [(1, 2), (2, 3)]\<rparr>)"
    by (simp add: s1 s2 ParseFloat_exact_values o)
  have run: "CollectFromReader exact \<lparr>tokens = [?l1, ?l2], scanErr = None\<rparr>
     = ([ConstHistogram unboundHistogram 5 5 [(1, 2), (2, 5)]], Ok ())"
    unfolding CollectFromReader_scan by (simp add: sl cumulative_two)
  have rec: "recognised exact [?l1, ?l2] = [(0, 1, 2), (1, 2, 3)]"
    by (simp add: recognised_Cons s1 s2 ParseFloat_exact_values) (simp add: recognised_def)
  have dist: "distinct (map upper_bound (recognised exact [?l1, ?l2]))"
    unfolding rec by (simp add: upper_bound_def)
  have nowrap: "sum_list (map ?n (recognised exact [?l1, ?l2])) < 2 ^ 64"
    unfolding rec by (simp add: observations_def)
  from cumulative_counts [OF run dist] obtain sent c s b where
    1: "[ConstHistogram unboundHistogram 5 5 [(1 :: rat, 2), (2, 5)]] = sent @ [ConstHistogram unboundHistogram c s b]"
    and 2: "dom (map_of b) = upper_bound ` set (recognised exact [?l1, ?l2])"
    and 3: "c = sum_list (map observations (recognised exact [?l1, ?l2]))"
    and 4: "recognised exact [?l1, ?l2] \<noteq> [] \<longrightarrow> bucket b (Max (dom (map_of b))) = c"
    and 5: "(\<forall>k1 \<in> dom (map_of b). \<forall>k2 \<in> dom (map_of b). k1 \<le> k2 \<longrightarrow> bucket b k1 \<le> bucket b k2)
           \<longleftrightarrow> sum_list (map ?n (recognised exact [?l1, ?l2])) < 2 ^ 64"
    and 6: "sum_list (map ?n (recognised exact [?l1, ?l2])) < 2 ^ 64 \<longrightarrow>
            (\<forall>k \<in> dom (map_of b).
               unat (bucket b k)
               = sum_list (map ?n (filter (\<lambda>t. upper_bound t \<le> k) (recognised exact [?l1, ?l2]))))
          \<and> unat c = sum_list (map ?n (recognised exact [?l1, ?l2]))"
    by blast
  have d: "dom (map_of b) = {1, 2}" unfolding 2 rec by (simp add: upper_bound_def)
  have c: "c = 5" unfolding 3 rec by (simp add: observations_def)
  have t: "bucket b (Max (dom (map_of b))) = c" using 4 rec by simp
  from 5 nowrap have "\<forall>k1 \<in> dom (map_of b). \<forall>k2 \<in> dom (map_of b). k1 \<le> k2 \<longrightarrow> bucket b k1 \<le> bucket b k2"
    by (rule iffD2)
  then have m: "bucket b 1 \<le> bucket b 2" using d by simp
  from 6 nowrap have n: "\<forall>k \<in> dom (map_of b).
               unat (bucket b k)
               = sum_list (map ?n (filter (\<lambda>t. upper_bound t \<le> k) (recognised exact [?l1, ?l2])))"
    and u: "unat c = sum_list (map ?n (recognised exact [?l1, ?l2]))"
    by simp_all
  have b1: "unat (bucket b 1) = 2" using n d unfolding rec by (simp add: upper_bound_def observations_def)
  have b2: "unat (bucket b 2) = 5" using n d unfolding rec by (simp add: upper_bound_def observations_def)
  have uc: "unat c = 5" using u unfolding rec by (simp add: observations_def)
  from 1 d c t m b1 b2 uc have E: "\<exists>sent c s b.
        [ConstHistogram unboundHistogram 5 5 [(1, 2), (2, 5)]] = sent @ [ConstHistogram unboundHistogram c s b]
      \<and> dom (map_of b) = {1 :: rat, 2}
      \<and> c = 5
      \<and> bucket b (Max (dom (map_of b))) = c
      \<and> bucket b 1 \<le> bucket b 2
      \<and> unat (bucket b 1) = 2
      \<and> unat (bucket b 2) = 5
      \<and> unat c = 5"
    by blast
  show ?thesis
    by (rule conjI [OF run conjI [OF rec conjI [OF dist conjI [OF nowrap E]]]])
qed

text \<open>
  The claim as it was stated fails when the counts add up to \<open>2^64\<close> or more: two lines
  with distinct upper bounds and the count \<open>2^63\<close> each give the bucket 1.0 the value
  \<open>2^63\<close> and the bucket 2.0 the value 0, which is also the count of the histogram.
\<close>

theorem wrapped_counts_counterexample:
  "map upper_bound (recognised exact
      [''histogram.0.0.to.1.0=9223372036854775808'', ''histogram.1.0.to.2.0=9223372036854775808''])
     = [1, 2]
   \<and> CollectFromReader exact
       \<lparr>tokens = [''histogram.0.0.to.1.0=9223372036854775808'',
                  ''histogram.1.0.to.2.0=9223372036854775808''],
        scanErr = None\<rparr>
     = ([ConstHistogram unboundHistogram 0 18446744073709551616
           [(1, 9223372036854775808), (2, 0)]], Ok ())"
proof -
  let ?l1 = "''histogram.0.0.to.1.0=9223372036854775808''"
  let ?l2 = "''histogram.1.0.to.2.0=9223372036854775808''"
  have kv1: "Split ?l1 CHR ''='' = [''histogram.0.0.to.1.0'', ''9223372036854775808'']" by simp
  have kv2: "Split ?l2 CHR ''='' = [''histogram.1.0.to.2.0'', ''9223372036854775808'']" by simp
  note s1 = bucket_line_step [OF kv1 histogram_keys(1) ParseUint_values(3), of exact]
  note s2 = bucket_line_step [OF kv2 histogram_keys(3) ParseUint_values(3), of exact]
  have o: "observe exact (observe exact (start exact) (0, 1, 9223372036854775808))
              (1, 2, 9223372036854775808)
         = \<lparr>histogramCount = 0, histogramSum = 18446744073709551616,
             histogramBuckets = [(1, 9223372036854775808), (2, 9223372036854775808)]\<rparr>"
    by (simp add: observe_def start_exact contribution_def upper_bound_def observations_def
          float64_def exact_fields)
  have sl: "scan_loop exact [?l1, ?l2] (start exact)
         = ([], Ok \<lparr>histogramCount = 0, histogramSum = 18446744073709551616,
             histogramBuckets = [(1, 9223372036854775808), (2, 9223372036854775808)]\<rparr>)"
    by (simp add: s1 s2 ParseFloat_exact_values o)
  have run: "CollectFromReader exact \<lparr>tokens = [?l1, ?l2], scanErr = None\<rparr>
     = ([ConstHistogram unboundHistogram 0 18446744073709551616
           [(1, 9223372036854775808), (2, 0)]], Ok ())"
    unfolding CollectFromReader_scan by (simp add: sl cumulative_two)
  have rec: "recognised exact [?l1, ?l2] = [(0, 1, 9223372036854775808), (1, 2, 9223372036854775808)]"
    by (simp add: recognised_Cons s1 s2 ParseFloat_exact_values) (simp add: recognised_def)
  have "map upper_bound (recognised exact [?l1, ?l2]) = [1, 2]"
    unfolding rec by (simp add: upper_bound_def)
  then show ?thesis using run by (rule conjI)
qed

subsection \<open>C2: the two lines of the specification\<close>

text \<open>
  C2. For the stream of the two lines \<^verbatim>\<open>histogram.0.000000.to.0.000001=2\<close> and
  \<^verbatim>\<open>histogram.0.000001.to.0.000002=3\<close>, the scrape sends one histogram: count 5, the
  cumulative buckets 0.000001 with 2 and 0.000002 with 5, and the sum
  \<open>(0.000001 - 0.0) * 2 + (0.000002 - 0.000001) * 3\<close> in the arithmetic of \<^verbatim>\<open>float64\<close>, each
  line contributing \<open>(upper - lower) * count\<close>. The two hypotheses are facts of \<^verbatim>\<open>float64\<close>:
  0.000001 is below 0.000002 after rounding, and adding the first contribution to the
  initial sum 0 gives that contribution.
\<close>

theorem two_bucket_lines:
  assumes "round64 fl (1 / 1000000) < round64 fl (2 / 1000000)"
    and "fadd fl (round64 fl 0)
           (fmul fl (fsub fl (round64 fl (1 / 1000000)) (round64 fl 0)) (round64 fl 2))
         = fmul fl (fsub fl (round64 fl (1 / 1000000)) (round64 fl 0)) (round64 fl 2)"
  shows "CollectFromReader fl
           \<lparr>tokens = [''histogram.0.000000.to.0.000001=2'', ''histogram.0.000001.to.0.000002=3''],
            scanErr = None\<rparr>
         = ([ConstHistogram unboundHistogram 5
               (fadd fl
                  (fmul fl (fsub fl (round64 fl (1 / 1000000)) (round64 fl 0)) (round64 fl 2))
                  (fmul fl (fsub fl (round64 fl (2 / 1000000)) (round64 fl (1 / 1000000))) (round64 fl 3)))
               [(round64 fl (1 / 1000000), 2), (round64 fl (2 / 1000000), 5)]],
            Ok ())"
proof -
  let ?l1 = "''histogram.0.000000.to.0.000001=2''" and ?l2 = "''histogram.0.000001.to.0.000002=3''"
  define u0 where "u0 = round64 fl 0"
  define u1 where "u1 = round64 fl (1 / 1000000)"
  define u2 where "u2 = round64 fl (2 / 1000000)"
  define c1 where "c1 = fmul fl (fsub fl u1 u0) (round64 fl 2)"
  define c2 where "c2 = fmul fl (fsub fl u2 u1) (round64 fl 3)"
  have lt: "u1 < u2" using assms(1) by (simp only: u1_def u2_def)
  have z: "fadd fl u0 c1 = c1" using assms(2) by (simp only: u0_def u1_def c1_def)
  have pf: "ParseFloat fl ''0.000000'' = (u0, None)" "ParseFloat fl ''0.000001'' = (u1, None)"
    "ParseFloat fl ''0.000002'' = (u2, None)"
    by (simp_all only: ParseFloat_micro u0_def u1_def u2_def)
  have kv1: "Split ?l1 CHR ''='' = [''histogram.0.000000.to.0.000001'', ''2'']" by simp
  have kv2: "Split ?l2 CHR ''='' = [''histogram.0.000001.to.0.000002'', ''3'']" by simp
  note s1 = bucket_line_step [OF kv1 micro_keys(1) ParseUint_values(1), of fl, THEN conjunct1]
  note s2 = bucket_line_step [OF kv2 micro_keys(2) ParseUint_values(2), of fl, THEN conjunct1]
  have ne: "u1 \<noteq> u2" using lt by simp
  have f: "float64 fl 2 = round64 fl 2" "float64 fl 3 = round64 fl 3"
    by (simp_all add: float64_def)
  have o: "observe fl (observe fl (start fl) (u0, u1, 2)) (u1, u2, 3)
         = \<lparr>histogramCount = 5, histogramSum = fadd fl c1 c2, histogramBuckets = [(u1, 2), (u2, 3)]\<rparr>"
    using ne z
    by (simp add: observe_def start_fields contribution_def upper_bound_def observations_def f
          c1_def c2_def u0_def)
  have run: "scan_loop fl [?l1, ?l2] (start fl)
         = ([], Ok \<lparr>histogramCount = 5, histogramSum = fadd fl c1 c2,
                    histogramBuckets = [(u1, 2), (u2, 3)]\<rparr>)"
    unfolding s1 s2 pf fst_conv o by simp
  have "CollectFromReader fl \<lparr>tokens = [?l1, ?l2], scanErr = None\<rparr>
         = ([ConstHistogram unboundHistogram 5 (fadd fl c1 c2) [(u1, 2), (u2, 5)]], Ok ())"
    unfolding CollectFromReader_scan by (simp add: run cumulative_two [OF lt])
  then show ?thesis
    by (simp only: c1_def c2_def u0_def u1_def u2_def)
qed

theorem two_bucket_lines_witness:
  "round64 exact (1 / 1000000) < round64 exact (2 / 1000000)
   \<and> fadd exact (round64 exact 0)
         (fmul exact (fsub exact (round64 exact (1 / 1000000)) (round64 exact 0)) (round64 exact 2))
       = fmul exact (fsub exact (round64 exact (1 / 1000000)) (round64 exact 0)) (round64 exact 2)
   \<and> CollectFromReader exact
        \<lparr>tokens = [''histogram.0.000000.to.0.000001=2'', ''histogram.0.000001.to.0.000002=3''],
         scanErr = None\<rparr>
      = ([ConstHistogram unboundHistogram 5 (1 / 200000) [(1 / 1000000, 2), (1 / 500000, 5)]], Ok ())"
proof -
  have 1: "round64 exact (1 / 1000000) < round64 exact (2 / 1000000)"
    by (simp add: exact_fields)
  have 2: "fadd exact (round64 exact 0)
           (fmul exact (fsub exact (round64 exact (1 / 1000000)) (round64 exact 0)) (round64 exact 2))
         = fmul exact (fsub exact (round64 exact (1 / 1000000)) (round64 exact 0)) (round64 exact 2)"
    by (simp add: exact_fields)
  from two_bucket_lines [OF 1 2] 1 2 show ?thesis
    by (simp add: exact_fields)
qed

subsection \<open>C3: one line, at most one sample\<close>



subsection \<open>C4: the shape of a line\<close>

text \<open>
  C4, as the code has it. A line is cut at every \<^verbatim>\<open>=\<close>, and it is accepted when that
  gives two fields, that is when the line holds exactly one \<^verbatim>\<open>=\<close>. A line with no
  \<^verbatim>\<open>=\<close> or with more than one returns the error that quotes the line, and the scrape
  returns that error at this line, after what the earlier lines sent. A line with
  exactly one \<^verbatim>\<open>=\<close> has as key the text before it and as value the text after it,
  either of which may be empty; it never gives the error that quotes the line: an error
  of such a line is a failed conversion of its value.
\<close>

theorem key_value_shape:
  "(length (Split line CHR ''='') = 2 \<longleftrightarrow> count_list line CHR ''='' = 1)
   \<and> (count_list line CHR ''='' \<noteq> 1 \<longrightarrow>
        scan_loop fl (line # rest) h = ([], Err (NotKeyValue line))
        \<and> (\<forall>xs sent h'. scan_loop fl xs (start fl) = (sent, Ok h') \<longrightarrow>
              CollectFromReader fl \<lparr>tokens = xs @ line # rest, scanErr = se\<rparr>
                = (sent, Err (NotKeyValue line))))
   \<and> (count_list line CHR ''='' = 1 \<longrightarrow>
        Split line CHR ''='' =
          [takeWhile (\<lambda>c. c \<noteq> CHR ''='') line, tl (dropWhile (\<lambda>c. c \<noteq> CHR ''='') line)]
        \<and> (\<forall>e. snd (scan_loop fl [line] h) = Err e \<longrightarrow>
              (\<exists>f k. e = NumError f (tl (dropWhile (\<lambda>c. c \<noteq> CHR ''='') line)) k)))"
proof -
  have 1: "length (Split line CHR ''='') = 2 \<longleftrightarrow> count_list line CHR ''='' = 1"
    by (simp add: length_Split)
  have 2: "scan_loop fl (line # rest) h' = ([], Err (NotKeyValue line))"
    if "count_list line CHR ''='' \<noteq> 1" for h'
    using that 1 by (simp add: scan_loop_not_kv)
  have 3: "CollectFromReader fl \<lparr>tokens = xs @ line # rest, scanErr = se\<rparr> = (sent, Err (NotKeyValue line))"
    if "count_list line CHR ''='' \<noteq> 1" "scan_loop fl xs (start fl) = (sent, Ok h')" for xs sent h'
    using CollectFromReader_abort [OF that(2) 2 [OF that(1)]] by simp
  have 4: "\<exists>f k. e = NumError f (tl (dropWhile (\<lambda>c. c \<noteq> CHR ''='') line)) k"
    if "count_list line CHR ''='' = 1" "snd (scan_loop fl [line] h) = Err e" for e
    using scan_single_error [OF Split_two [OF that(1)] that(2)] .
  show ?thesis using 1 2 3 4 Split_two by blast
qed

text \<open>The line \<^verbatim>\<open>garbage\<close> of the specification, and the line \<^verbatim>\<open>foo.bar=1\<close>.\<close>

theorem key_value_shape_witness:
  "count_list ''garbage'' CHR ''='' \<noteq> 1
   \<and> CollectFromReader exact \<lparr>tokens = [''time.up=1'', ''garbage'', ''foo.bar=1''], scanErr = None\<rparr>
       = ([ConstMetric
             \<lparr>fqName = ''unbound_time_up_seconds_total'',
              helpText = ''Uptime since server boot in seconds.'',
              variableLabels = []\<rparr>
             CounterValue 1 []],
          Err (NotKeyValue ''garbage''))
   \<and> count_list ''foo.bar=1'' CHR ''='' = 1
   \<and> Split ''foo.bar=1'' CHR ''='' = [''foo.bar'', ''1'']"
proof -
  have g: "count_list ''garbage'' CHR ''='' \<noteq> 1" by simp
  have f: "count_list ''foo.bar=1'' CHR ''='' = 1" by simp
  have s: "scan_loop exact [''time.up=1''] (start exact) =
      ([ConstMetric
             \<lparr>fqName = ''unbound_time_up_seconds_total'',
              helpText = ''Uptime since server boot in seconds.'',
              variableLabels = []\<rparr>
             CounterValue 1 []], Ok (start exact))"
    by (simp add: time_up_line_exact)
  from key_value_shape [of "''garbage''" exact "[''foo.bar=1'']" "start exact" None] g s
  have "CollectFromReader exact \<lparr>tokens = [''time.up=1''] @ ''garbage'' # [''foo.bar=1''], scanErr = None\<rparr>
       = ([ConstMetric
             \<lparr>fqName = ''unbound_time_up_seconds_total'',
              helpText = ''Uptime since server boot in seconds.'',
              variableLabels = []\<rparr>
             CounterValue 1 []],
          Err (NotKeyValue ''garbage''))"
    by blast
  moreover from key_value_shape [of "''foo.bar=1''" exact "[]" "start exact" None] f
  have "Split ''foo.bar=1'' CHR ''='' = [''foo.bar'', ''1'']" by simp
  ultimately show ?thesis using g f by simp
qed

text \<open>
  The claim as it was stated fails on lines with an empty key or an empty value: both
  are accepted, and here the scrape succeeds.
\<close>

theorem empty_field_counterexample:
  "CollectFromReader exact \<lparr>tokens = [''foo='', ''=1''], scanErr = None\<rparr>
     = ([ConstHistogram unboundHistogram 0 0 []], Ok ())"
proof -
  have 1: "scan_loop exact (''foo='' # rest) h = scan_loop exact rest h" for rest h
    by (rule scan_loop_dropped [of _ "''foo''" "[]"])
       (simp_all add: catalog_first_char histogram_first_char)
  have 2: "scan_loop exact (''=1'' # rest) h = scan_loop exact rest h" for rest h
    by (rule scan_loop_dropped [of _ "[]" "''1''"])
       (simp_all add: catalog_first_char histogram_first_char)
  show ?thesis
    unfolding CollectFromReader_scan by (simp add: 1 2 start_exact)
qed

subsection \<open>C5: what a failed scrape leaves on the channel\<close>

text \<open>
  C5, as the code has it. The samples are sent while the lines are read. When a line
  fails (a line that, read alone, makes the scrape return an error), the scrape of a
  stream in which the earlier lines are fine returns at that line: the samples of the
  earlier lines have been sent and stay, nothing is sent for the failing line or for any
  later line, no histogram is sent, and \<^verbatim>\<open>Collect\<close> then sends the gauge \<^verbatim>\<open>unbound_up\<close>
  with value 0, once, as the last metric. A scrape that succeeds sends the samples, then
  the histogram, then the gauge with value 1. A scrape whose scanner ends with an error
  sends the samples and the histogram, then the gauge with value 0; a connection that
  cannot be opened or written to sends the gauge with value 0 alone.
\<close>

theorem failed_scrape_channel:
  assumes "CollectFromReader fl \<lparr>tokens = xs, scanErr = None\<rparr> = (out, Ok ())"
    and "CollectFromReader fl \<lparr>tokens = [bad], scanErr = None\<rparr> = (s, Err e)"
  shows "(\<exists>sent c sm b.
            out = sent @ [ConstHistogram unboundHistogram c sm b]
          \<and> (\<forall>m \<in> set sent. \<exists>d t v ls. m = ConstMetric d t v ls)
          \<and> Collect fl (Inr \<lparr>tokens = xs @ bad # ys, scanErr = se\<rparr>)
              = (sent @ [ConstMetric unboundUpDesc GaugeValue (round64 fl 0) []], Ok ()))
       \<and> Collect fl (Inr \<lparr>tokens = xs, scanErr = None\<rparr>)
           = (out @ [ConstMetric unboundUpDesc GaugeValue (round64 fl 1) []], Ok ())
       \<and> Collect fl (Inr \<lparr>tokens = xs, scanErr = Some e'\<rparr>)
           = (out @ [ConstMetric unboundUpDesc GaugeValue (round64 fl 0) []], Ok ())
       \<and> Collect fl (Inl e') = ([ConstMetric unboundUpDesc GaugeValue (round64 fl 0) []], Ok ())"
proof -
  from CollectFromReader_Ok [OF assms(1)] obtain sent h where
    sl: "scan_loop fl xs (start fl) = (sent, Ok h)"
    and out: "out = sent @ [ConstHistogram unboundHistogram (histogramCount h) (histogramSum h)
                            (cumulative (histogramBuckets h))]"
    by blast
  from CollectFromReader_Err [OF assms(2)] have "scan_loop fl [bad] (start fl) = (s, Err e)" .
  from scan_single_Err [OF this] have b: "scan_loop fl (bad # ys) h = ([], Err e)" by simp
  have 1: "Collect fl (Inr \<lparr>tokens = xs @ bad # ys, scanErr = se\<rparr>)
              = (sent @ [ConstMetric unboundUpDesc GaugeValue (round64 fl 0) []], Ok ())"
    by (simp add: Collect_outcomes CollectFromSocket_def CollectFromReader_abort [OF sl b])
  have 2: "Collect fl (Inr \<lparr>tokens = xs, scanErr = None\<rparr>)
           = (out @ [ConstMetric unboundUpDesc GaugeValue (round64 fl 1) []], Ok ())"
    by (simp add: Collect_outcomes CollectFromSocket_def assms(1))
  have 3: "Collect fl (Inr \<lparr>tokens = xs, scanErr = Some e'\<rparr>)
           = (out @ [ConstMetric unboundUpDesc GaugeValue (round64 fl 0) []], Ok ())"
    by (simp add: Collect_outcomes CollectFromSocket_def CollectFromReader_scan sl out)
  have 4: "Collect fl (Inl e') = ([ConstMetric unboundUpDesc GaugeValue (round64 fl 0) []], Ok ())"
    by (simp add: Collect_outcomes CollectFromSocket_def)
  from out scan_loop_samples [OF sl] 1 2 3 4 show ?thesis by blast
qed

text \<open>One line that is resolved, then the line \<^verbatim>\<open>garbage\<close>, then one more line.\<close>

theorem failed_scrape_channel_witness:
  "CollectFromReader exact \<lparr>tokens = [''time.up=1''], scanErr = None\<rparr>
     = ([ConstMetric
           \<lparr>fqName = ''unbound_time_up_seconds_total'',
            helpText = ''Uptime since server boot in seconds.'',
            variableLabels = []\<rparr>
           CounterValue 1 [],
         ConstHistogram unboundHistogram 0 0 []], Ok ())
   \<and> CollectFromReader exact \<lparr>tokens = [''garbage''], scanErr = None\<rparr> = ([], Err (NotKeyValue ''garbage''))
   \<and> Collect exact (Inr \<lparr>tokens = [''time.up=1'', ''garbage'', ''time.up=1''], scanErr = None\<rparr>)
     = ([ConstMetric
           \<lparr>fqName = ''unbound_time_up_seconds_total'',
            helpText = ''Uptime since server boot in seconds.'',
            variableLabels = []\<rparr>
           CounterValue 1 [],
         ConstMetric unboundUpDesc GaugeValue 0 []], Ok ())
   \<and> Collect exact (Inr \<lparr>tokens = [''time.up=1''], scanErr = None\<rparr>)
     = ([ConstMetric
           \<lparr>fqName = ''unbound_time_up_seconds_total'',
            helpText = ''Uptime since server boot in seconds.'',
            variableLabels = []\<rparr>
           CounterValue 1 [],
         ConstHistogram unboundHistogram 0 0 [],
         ConstMetric unboundUpDesc GaugeValue 1 []], Ok ())"
proof -
  let ?up = "ConstMetric
           \<lparr>fqName = ''unbound_time_up_seconds_total'',
            helpText = ''Uptime since server boot in seconds.'',
            variableLabels = []\<rparr>
           CounterValue (1 :: rat) []"
  have ok: "CollectFromReader exact \<lparr>tokens = [''time.up=1''], scanErr = None\<rparr>
     = ([?up, ConstHistogram unboundHistogram 0 0 []], Ok ())"
    unfolding CollectFromReader_scan by (simp add: time_up_line_exact) (simp add: start_exact)
  have bad: "CollectFromReader exact \<lparr>tokens = [''garbage''], scanErr = None\<rparr> = ([], Err (NotKeyValue ''garbage''))"
    unfolding CollectFromReader_scan by (simp add: scan_loop_not_kv)
  note T = failed_scrape_channel [OF ok bad, of "[''time.up=1'']" None "IOError []"]
  from T [THEN conjunct1] obtain sent c sm b where
    o: "[?up, ConstHistogram unboundHistogram 0 0 []] = sent @ [ConstHistogram unboundHistogram c sm b]"
    and c: "Collect exact (Inr \<lparr>tokens = [''time.up=1''] @ ''garbage'' # [''time.up=1''], scanErr = None\<rparr>)
              = (sent @ [ConstMetric unboundUpDesc GaugeValue (round64 exact 0) []], Ok ())"
    by blast
  from o have "[?up] @ [ConstHistogram unboundHistogram 0 0 []] = sent @ [ConstHistogram unboundHistogram c sm b]"
    by simp
  then have sent: "sent = [?up]" by (simp only: append1_eq_conv)
  have r0: "round64 exact 0 = 0" "round64 exact 1 = 1" by (simp_all add: exact_def)
  from c sent r0 have 1: "Collect exact (Inr \<lparr>tokens = [''time.up=1'', ''garbage'', ''time.up=1''], scanErr = None\<rparr>)
     = ([?up, ConstMetric unboundUpDesc GaugeValue 0 []], Ok ())"
    by simp
  from T [THEN conjunct2, THEN conjunct1] r0
  have 2: "Collect exact (Inr \<lparr>tokens = [''time.up=1''], scanErr = None\<rparr>)
     = ([?up, ConstHistogram unboundHistogram 0 0 [], ConstMetric unboundUpDesc GaugeValue 1 []], Ok ())"
    by simp
  from ok bad 1 2 show ?thesis by simp
qed

text \<open>
  The claim as it was stated fails on a stream with a line that is resolved before the
  line that fails: the sample of the first line is on the channel.
\<close>

theorem partial_results_counterexample:
  "Collect exact (Inr \<lparr>tokens = [''time.up=1'', ''garbage''], scanErr = None\<rparr>)
     = ([ConstMetric
           \<lparr>fqName = ''unbound_time_up_seconds_total'',
            helpText = ''Uptime since server boot in seconds.'',
            variableLabels = []\<rparr>
           CounterValue 1 [],
         ConstMetric unboundUpDesc GaugeValue 0 []], Ok ())"
proof -
  have "CollectFromReader exact \<lparr>tokens = [''time.up=1'', ''garbage''], scanErr = None\<rparr>
     = ([ConstMetric
           \<lparr>fqName = ''unbound_time_up_seconds_total'',
            helpText = ''Uptime since server boot in seconds.'',
            variableLabels = []\<rparr>
           CounterValue 1 []], Err (NotKeyValue ''garbage''))"
    unfolding CollectFromReader_scan by (simp add: time_up_line_exact scan_loop_not_kv)
  then show ?thesis
    by (simp add: Collect_outcomes CollectFromSocket_def exact_def)
qed

subsection \<open>C6: values that are not numbers\<close>

text \<open>
  C6, as the code has it. A line whose key matches a definition of the catalog and whose
  value \<^verbatim>\<open>ParseFloat\<close> does not convert stops the scrape with the error of \<^verbatim>\<open>ParseFloat\<close>,
  which names the function and the value (not the key). A line whose key matches the
  histogram pattern and whose count \<^verbatim>\<open>ParseUint\<close> does not convert stops the scrape with
  the error of \<^verbatim>\<open>ParseUint\<close>, which names the function and the count. Either way the
  scrape returns that error, after what the earlier lines sent. A key that begins with
  \<^verbatim>\<open>histogram.\<close> and does not match the histogram pattern (a bound that is not digits,
  dot, digits) is not an error: the line is skipped.
\<close>

theorem conversion_failure:
  "(Split line CHR ''='' = [key, val]
      \<and> (\<exists>m \<in> set unboundMetrics. FindStringSubmatch (pattern m) key \<noteq> None)
      \<and> snd (ParseFloat fl val) \<noteq> None
      \<longrightarrow> (\<exists>k. scan_loop fl (line # rest) h = ([], Err (NumError ''ParseFloat'' val k))))
   \<and> (Split line CHR ''='' = [key, val]
      \<and> FindStringSubmatch histogramPattern key \<noteq> None
      \<and> snd (ParseUint val) \<noteq> None
      \<longrightarrow> (\<exists>k. scan_loop fl (line # rest) h = ([], Err (NumError ''ParseUint'' val k))))
   \<and> (Split line CHR ''='' = [key, val]
      \<and> take 10 key = ''histogram.''
      \<and> FindStringSubmatch histogramPattern key = None
      \<longrightarrow> scan_loop fl (line # rest) h = scan_loop fl rest h)
   \<and> (\<forall>xs sent h' e.
        scan_loop fl xs (start fl) = (sent, Ok h') \<and> scan_loop fl (line # rest) h' = ([], Err e)
        \<longrightarrow> CollectFromReader fl \<lparr>tokens = xs @ line # rest, scanErr = se\<rparr> = (sent, Err e))"
proof -
  have "CollectFromReader fl \<lparr>tokens = xs @ line # rest, scanErr = se\<rparr> = (sent, Err e)"
    if "scan_loop fl xs (start fl) = (sent, Ok h')" "scan_loop fl (line # rest) h' = ([], Err e)"
    for xs sent h' e
    using CollectFromReader_abort [OF that] by simp
  then show ?thesis
    using catalog_match_error [of line key val fl rest h] histogram_count_error [of line key val fl rest h]
      bucket_like_dropped [of line key val fl rest h]
    by blast
qed

text \<open>
  Three lines: a value that is not a number, a count that is not a number, a bound that
  is not a number; and the first of them after a line that is resolved.
\<close>

theorem conversion_failure_witness:
  "scan_loop exact [''time.up=abc''] (start exact) = ([], Err (NumError ''ParseFloat'' ''abc'' ErrSyntax))
   \<and> scan_loop exact [''histogram.0.1.to.0.2=x''] (start exact) = ([], Err (NumError ''ParseUint'' ''x'' ErrSyntax))
   \<and> scan_loop exact [''histogram.abc.to.1.0=5''] (start exact) = ([], Ok (start exact))
   \<and> CollectFromReader exact \<lparr>tokens = [''time.up=1'', ''time.up=abc''], scanErr = None\<rparr>
       = ([ConstMetric
             \<lparr>fqName = ''unbound_time_up_seconds_total'',
              helpText = ''Uptime since server boot in seconds.'',
              variableLabels = []\<rparr>
             CounterValue 1 []],
          Err (NumError ''ParseFloat'' ''abc'' ErrSyntax))"
proof -
  let ?up = "ConstMetric
             \<lparr>fqName = ''unbound_time_up_seconds_total'',
              helpText = ''Uptime since server boot in seconds.'',
              variableLabels = []\<rparr>
             CounterValue (1 :: rat) []"
  have kv1: "Split ''time.up=abc'' CHR ''='' = [''time.up'', ''abc'']" by simp
  note m1 = time_up_matches
  have p1: "snd (ParseFloat exact ''abc'') \<noteq> None" by (simp add: ParseFloat_exact_abc)
  note T1 = conversion_failure [of "''time.up=abc''" "''time.up''" "''abc''" exact "[]" "start exact" None]
  have "\<exists>k. scan_loop exact [''time.up=abc''] (start exact) = ([], Err (NumError ''ParseFloat'' ''abc'' k))"
    by (rule T1 [THEN conjunct1, THEN mp]) (intro conjI kv1 m1 p1)
  then obtain k where 1: "scan_loop exact [''time.up=abc''] (start exact) = ([], Err (NumError ''ParseFloat'' ''abc'' k))"
    ..
  have "scan_loop exact [''time.up=abc''] (start exact) = ([], Err (NumError ''ParseFloat'' ''abc'' ErrSyntax))"
    by (simp add: scan_loop_kv [OF kv1] time_up_any ParseFloat_exact_abc)
  with 1 have k: "k = ErrSyntax" by simp
  have kv2: "Split ''histogram.0.1.to.0.2=x'' CHR ''='' = [''histogram.0.1.to.0.2'', ''x'']" by simp
  have m2: "FindStringSubmatch histogramPattern ''histogram.0.1.to.0.2'' \<noteq> None"
    by (simp add: FindStringSubmatch_def histogramPattern_def str_def is_digit_def)
  have p2: "ParseUint ''x'' = (0, Some (NumError ''ParseUint'' ''x'' ErrSyntax))"
    by (simp add: ParseUint_def is_digit_def)
  note T2 = conversion_failure [of "''histogram.0.1.to.0.2=x''" "''histogram.0.1.to.0.2''" "''x''" exact "[]" "start exact" None]
  have p2': "snd (ParseUint ''x'') \<noteq> None" by (simp add: p2)
  have "\<exists>k. scan_loop exact [''histogram.0.1.to.0.2=x''] (start exact) = ([], Err (NumError ''ParseUint'' ''x'' k))"
    by (rule T2 [THEN conjunct2, THEN conjunct1, THEN mp]) (intro conjI kv2 m2 p2')
  then obtain k2 where 2: "scan_loop exact [''histogram.0.1.to.0.2=x''] (start exact) = ([], Err (NumError ''ParseUint'' ''x'' k2))"
    ..
  have "histogram_line exact (start exact) ''histogram.0.1.to.0.2'' ''x'' = Err (NumError ''ParseUint'' ''x'' ErrSyntax)"
    using m2 by (auto simp: histogram_line_match p2)
  with 2 have k2: "k2 = ErrSyntax"
    by (simp add: scan_loop_kv [OF kv2] histogram_key_not_catalog [OF m2])
  have kv3: "Split ''histogram.abc.to.1.0=5'' CHR ''='' = [''histogram.abc.to.1.0'', ''5'']" by simp
  have m3: "FindStringSubmatch histogramPattern ''histogram.abc.to.1.0'' = None"
    by (simp add: FindStringSubmatch_def histogramPattern_def str_def is_digit_def)
  note T3 = conversion_failure [of "''histogram.abc.to.1.0=5''" "''histogram.abc.to.1.0''" "''5''" exact "[]" "start exact" None]
  have t3: "take 10 ''histogram.abc.to.1.0'' = ''histogram.''" by simp
  have "scan_loop exact [''histogram.abc.to.1.0=5''] (start exact) = scan_loop exact [] (start exact)"
    by (rule T3 [THEN conjunct2, THEN conjunct2, THEN conjunct1, THEN mp]) (intro conjI kv3 m3 t3)
  then have 3: "scan_loop exact [''histogram.abc.to.1.0=5''] (start exact) = ([], Ok (start exact))"
    by simp
  have s: "scan_loop exact [''time.up=1''] (start exact) = ([?up], Ok (start exact))"
    by (simp add: time_up_line_exact)
  have e1: "scan_loop exact [''time.up=abc''] (start exact) = ([], Err (NumError ''ParseFloat'' ''abc'' ErrSyntax))"
    using 1 k by simp
  have 4: "CollectFromReader exact \<lparr>tokens = [''time.up=1''] @ [''time.up=abc''], scanErr = None\<rparr>
       = ([?up], Err (NumError ''ParseFloat'' ''abc'' ErrSyntax))"
    by (rule T1 [THEN conjunct2, THEN conjunct2, THEN conjunct2, rule_format]) (rule conjI, rule s, rule e1)
  from e1 2 k2 3 4 show ?thesis by simp
qed

text \<open>
  The claim as it was stated fails twice: the error of a value that is not a number
  holds the function and the value and no key, and a bound that is not a number is not
  an error (the scrape succeeds).
\<close>

theorem conversion_failure_counterexample:
  "CollectFromReader exact \<lparr>tokens = [''time.up=abc''], scanErr = None\<rparr>
     = ([], Err (NumError ''ParseFloat'' ''abc'' ErrSyntax))
   \<and> CollectFromReader exact \<lparr>tokens = [''histogram.abc.to.1.0=5''], scanErr = None\<rparr>
     = ([ConstHistogram unboundHistogram 0 0 []], Ok ())"
proof -
  have kv1: "Split ''time.up=abc'' CHR ''='' = [''time.up'', ''abc'']" by simp
  have 1: "scan_loop exact [''time.up=abc''] (start exact) = ([], Err (NumError ''ParseFloat'' ''abc'' ErrSyntax))"
    by (simp add: scan_loop_kv [OF kv1] time_up_any ParseFloat_exact_abc)
  have kv3: "Split ''histogram.abc.to.1.0=5'' CHR ''='' = [''histogram.abc.to.1.0'', ''5'']" by simp
  have m3: "FindStringSubmatch histogramPattern ''histogram.abc.to.1.0'' = None"
    by (simp add: FindStringSubmatch_def histogramPattern_def str_def is_digit_def)
  have 3: "scan_loop exact [''histogram.abc.to.1.0=5''] (start exact) = ([], Ok (start exact))"
    using bucket_like_dropped [OF kv3 _ m3, of exact "[]" "start exact"] by simp
  show ?thesis
    unfolding CollectFromReader_scan by (simp add: 1 3) (simp add: start_exact)
qed

subsection \<open>C7: two lines with one upper bound\<close>

text \<open>
  C7. When the loop has read all the lines, the count is the sum of the counts of all
  the recognised histogram lines and the sum is the sum of their contributions, in the
  order of the lines, whereas the bucket map holds, for each upper bound, the count of
  the last recognised line with that upper bound: a later line with the same upper bound
  overwrites the entry and is still added to the count and to the sum. The histogram
  that is sent has this count and this sum.
\<close>

theorem every_line_counted:
  assumes "scan_loop fl lines (start fl) = (sent, Ok h)"
  shows "histogramCount h = sum_list (map observations (recognised fl lines))
     \<and> histogramSum h
         = foldl (\<lambda>s t. fadd fl s (contribution fl t)) (round64 fl 0) (recognised fl lines)
     \<and> map_of (histogramBuckets h)
         = map_of (rev (map (\<lambda>t. (upper_bound t, observations t)) (recognised fl lines)))
     \<and> (\<forall>ts t ts'. recognised fl lines = ts @ t # ts' \<and> upper_bound t \<notin> upper_bound ` set ts'
           \<longrightarrow> bucket (histogramBuckets h) (upper_bound t) = observations t)
     \<and> CollectFromReader fl \<lparr>tokens = lines, scanErr = None\<rparr>
         = (sent @ [ConstHistogram unboundHistogram
                      (sum_list (map observations (recognised fl lines)))
                      (foldl (\<lambda>s t. fadd fl s (contribution fl t)) (round64 fl 0) (recognised fl lines))
                      (cumulative (histogramBuckets h))], Ok ())"
proof -
  from scan_loop_accumulates [OF assms]
  have h: "h = foldl (observe fl) (start fl) (recognised fl lines)" .
  have c: "histogramCount h = sum_list (map observations (recognised fl lines))"
    unfolding h fold_count by (simp add: start_def)
  have s: "histogramSum h
         = foldl (\<lambda>s t. fadd fl s (contribution fl t)) (round64 fl 0) (recognised fl lines)"
    unfolding h fold_sum by (simp add: start_def)
  have b: "map_of (histogramBuckets h)
         = map_of (rev (map (\<lambda>t. (upper_bound t, observations t)) (recognised fl lines)))"
    unfolding h fold_buckets by (simp add: start_def)
  have l: "bucket (histogramBuckets h) (upper_bound t) = observations t"
    if "recognised fl lines = ts @ t # ts'" "upper_bound t \<notin> upper_bound ` set ts'" for ts t ts'
    unfolding bucket_def b that(1) last_wins [OF that(2)] by simp
  have r: "CollectFromReader fl \<lparr>tokens = lines, scanErr = None\<rparr>
         = (sent @ [ConstHistogram unboundHistogram (histogramCount h) (histogramSum h)
                      (cumulative (histogramBuckets h))], Ok ())"
    by (simp add: CollectFromReader_scan assms)
  from c s b l r show ?thesis by simp
qed

text \<open>
  Two lines with the upper bound 1.0 and the counts 2 and 3: the count is 5, the sum has
  both contributions, and the bucket holds 3.
\<close>

theorem every_line_counted_witness:
  "scan_loop exact [''histogram.0.0.to.1.0=2'', ''histogram.0.5.to.1.0=3''] (start exact)
     = ([], Ok \<lparr>histogramCount = 5, histogramSum = 7 / 2, histogramBuckets = [(1, 3)]\<rparr>)
   \<and> recognised exact [''histogram.0.0.to.1.0=2'', ''histogram.0.5.to.1.0=3''] = [(0, 1, 2), (1 / 2, 1, 3)]
   \<and> sum_list (map observations (recognised exact [''histogram.0.0.to.1.0=2'', ''histogram.0.5.to.1.0=3''])) = 5
   \<and> CollectFromReader exact \<lparr>tokens = [''histogram.0.0.to.1.0=2'', ''histogram.0.5.to.1.0=3''], scanErr = None\<rparr>
     = ([ConstHistogram unboundHistogram 5 (7 / 2) [(1, 3)]], Ok ())"
proof -
  let ?l1 = "''histogram.0.0.to.1.0=2''" and ?l2 = "''histogram.0.5.to.1.0=3''"
  let ?h = "\<lparr>histogramCount = 5, histogramSum = 7 / 2 :: rat, histogramBuckets = [(1 :: rat, 3)]\<rparr>"
  have kv1: "Split ?l1 CHR ''='' = [''histogram.0.0.to.1.0'', ''2'']" by simp
  have kv2: "Split ?l2 CHR ''='' = [''histogram.0.5.to.1.0'', ''3'']" by simp
  note s1 = bucket_line_step [OF kv1 histogram_keys(1) ParseUint_values(1), of exact]
  note s2 = bucket_line_step [OF kv2 histogram_keys(2) ParseUint_values(2), of exact]
  have o: "observe exact (observe exact (start exact) (0, 1, 2)) (1 / 2, 1, 3) = ?h"
    by (simp add: observe_def start_exact contribution_def upper_bound_def observations_def
          float64_def exact_fields)
  have run: "scan_loop exact [?l1, ?l2] (start exact) = ([], Ok ?h)"
    by (simp add: s1 s2 ParseFloat_exact_values o)
  have rec: "recognised exact [?l1, ?l2] = [(0, 1, 2), (1 / 2, 1, 3)]"
    by (simp add: recognised_Cons s1 s2 ParseFloat_exact_values) (simp add: recognised_def)
  note T = every_line_counted [OF run]
  from T [THEN conjunct1] have c: "sum_list (map observations (recognised exact [?l1, ?l2])) = 5"
    by simp
  have cum: "cumulative [(1 :: rat, 3 :: uint64)] = [(1, 3)]"
    by (simp add: cumulative_def bucket_def)
  from T [THEN conjunct2, THEN conjunct2, THEN conjunct2, THEN conjunct2]
  have "CollectFromReader exact \<lparr>tokens = [?l1, ?l2], scanErr = None\<rparr>
     = ([ConstHistogram unboundHistogram 5 (7 / 2) [(1, 3)]], Ok ())"
    unfolding c rec by (simp add: cum contribution_def upper_bound_def observations_def float64_def exact_fields)
  with run rec c show ?thesis by simp
qed

subsection \<open>C8: a key that nothing recognises\<close>

text \<open>
  C8. A line \<^verbatim>\<open>key=value\<close> whose key matches no pattern of the catalog and does not
  match the histogram pattern sends nothing, raises no error and leaves the accumulator
  as it was; the scrape of a stream with such a line is the scrape of the stream without
  it: the other lines are resolved as before, and the scrape returns what it would
  return without the line.
\<close>

theorem unrecognised_key_dropped:
  assumes "Split line CHR ''='' = [key, val]"
    and "\<forall>m \<in> set unboundMetrics. FindStringSubmatch (pattern m) key = None"
    and "FindStringSubmatch histogramPattern key = None"
  shows "scan_loop fl [line] h = ([], Ok h)
       \<and> CollectFromReader fl \<lparr>tokens = xs @ line # ys, scanErr = e\<rparr>
           = CollectFromReader fl \<lparr>tokens = xs @ ys, scanErr = e\<rparr>
       \<and> Collect fl (Inr \<lparr>tokens = xs @ line # ys, scanErr = e\<rparr>)
           = Collect fl (Inr \<lparr>tokens = xs @ ys, scanErr = e\<rparr>)"
proof -
  from assms(2) have none: "list_all (\<lambda>m. FindStringSubmatch (pattern m) key = None) unboundMetrics"
    by (simp add: list_all_iff)
  have 1: "scan_loop fl [line] h = ([], Ok h)"
    unfolding scan_loop_dropped [OF assms(1) none assms(3)] by simp
  have 2: "CollectFromReader fl \<lparr>tokens = xs @ line # ys, scanErr = e\<rparr>
           = CollectFromReader fl \<lparr>tokens = xs @ ys, scanErr = e\<rparr>"
    unfolding CollectFromReader_scan
    by (simp add: scan_loop_dropped_middle [OF assms(1) none assms(3)])
  from 1 2 show ?thesis by (simp add: Collect_def CollectFromSocket_def)
qed

text \<open>The line \<^verbatim>\<open>foo.bar=1\<close> of the specification, after a line that is resolved.\<close>

theorem unrecognised_key_dropped_witness:
  "Split ''foo.bar=1'' CHR ''='' = [''foo.bar'', ''1'']
   \<and> list_all (\<lambda>m. FindStringSubmatch (pattern m) ''foo.bar'' = None) unboundMetrics
   \<and> FindStringSubmatch histogramPattern ''foo.bar'' = None
   \<and> scan_loop exact [''foo.bar=1''] (start exact) = ([], Ok (start exact))
   \<and> CollectFromReader exact \<lparr>tokens = [''time.up=1'', ''foo.bar=1''], scanErr = None\<rparr>
       = ([ConstMetric
             \<lparr>fqName = ''unbound_time_up_seconds_total'',
              helpText = ''Uptime since server boot in seconds.'',
              variableLabels = []\<rparr>
             CounterValue 1 [],
           ConstHistogram unboundHistogram 0 0 []], Ok ())"
proof -
  have kv: "Split ''foo.bar=1'' CHR ''='' = [''foo.bar'', ''1'']" by simp
  have la: "list_all (\<lambda>m. FindStringSubmatch (pattern m) ''foo.bar'' = None) unboundMetrics"
    by (rule catalog_first_char) simp
  then have none: "\<forall>m \<in> set unboundMetrics. FindStringSubmatch (pattern m) ''foo.bar'' = None"
    by (simp add: list_all_iff)
  have hist: "FindStringSubmatch histogramPattern ''foo.bar'' = None"
    by (rule histogram_first_char) simp
  have "CollectFromReader exact \<lparr>tokens = [''time.up=1''], scanErr = None\<rparr>
       = ([ConstMetric
             \<lparr>fqName = ''unbound_time_up_seconds_total'',
              helpText = ''Uptime since server boot in seconds.'',
              variableLabels = []\<rparr>
             CounterValue 1 [],
           ConstHistogram unboundHistogram 0 0 []], Ok ())"
    unfolding CollectFromReader_scan by (simp add: time_up_line_exact start_exact)
  with unrecognised_key_dropped [OF kv none hist, of exact "start exact" "[''time.up=1'']" "[]" None]
  show ?thesis using kv la hist by (simp add: start_exact)
qed

subsection \<open>C9: no histogram line\<close>

text \<open>
  C9, as the code has it. The scrape of the empty stream succeeds and sends exactly one
  metric, the histogram with count 0, sum 0 and no bucket. More generally, a scrape that
  succeeds on a stream without any recognised histogram line sends its samples and then
  exactly one histogram, with count 0, sum 0 and no bucket: the histogram is sent, not
  skipped. (A stream without histogram lines can still hold a line that fails; then the
  scrape fails and no histogram is sent.)
\<close>

theorem empty_histogram:
  "CollectFromReader fl \<lparr>tokens = [], scanErr = None\<rparr>
     = ([ConstHistogram unboundHistogram 0 (round64 fl 0) []], Ok ())
   \<and> (snd (CollectFromReader fl \<lparr>tokens = lines, scanErr = None\<rparr>) = Ok ()
        \<and> recognised fl lines = []
      \<longrightarrow> (\<exists>sent. fst (CollectFromReader fl \<lparr>tokens = lines, scanErr = None\<rparr>)
                     = sent @ [ConstHistogram unboundHistogram 0 (round64 fl 0) []]
                 \<and> (\<forall>m \<in> set sent. \<exists>d t v ls. m = ConstMetric d t v ls)))"
proof -
  have 1: "CollectFromReader fl \<lparr>tokens = [], scanErr = None\<rparr>
     = ([ConstHistogram unboundHistogram 0 (round64 fl 0) []], Ok ())"
    by (simp add: CollectFromReader_scan start_def)
  have 2: "\<exists>sent. fst (CollectFromReader fl \<lparr>tokens = lines, scanErr = None\<rparr>)
                     = sent @ [ConstHistogram unboundHistogram 0 (round64 fl 0) []]
                 \<and> (\<forall>m \<in> set sent. \<exists>d t v ls. m = ConstMetric d t v ls)"
    if ok: "snd (CollectFromReader fl \<lparr>tokens = lines, scanErr = None\<rparr>) = Ok ()"
      and none: "recognised fl lines = []"
  proof -
    obtain out where "CollectFromReader fl \<lparr>tokens = lines, scanErr = None\<rparr> = (out, Ok ())"
      using ok by (cases "CollectFromReader fl \<lparr>tokens = lines, scanErr = None\<rparr>") simp
    from CollectFromReader_Ok [OF this] obtain sent h where
      sl: "scan_loop fl lines (start fl) = (sent, Ok h)" by blast
    from scan_loop_accumulates [OF sl] none have "h = start fl" by simp
    then have "fst (CollectFromReader fl \<lparr>tokens = lines, scanErr = None\<rparr>)
                     = sent @ [ConstHistogram unboundHistogram 0 (round64 fl 0) []]"
      by (simp add: CollectFromReader_scan sl start_fields)
    with scan_loop_samples [OF sl] show ?thesis by blast
  qed
  from 1 2 show ?thesis by blast
qed

text \<open>A stream of two lines of which neither is a histogram line.\<close>

theorem empty_histogram_witness:
  "snd (CollectFromReader exact \<lparr>tokens = [''time.up=1'', ''foo.bar=1''], scanErr = None\<rparr>) = Ok ()
   \<and> recognised exact [''time.up=1'', ''foo.bar=1''] = []
   \<and> (\<exists>sent. fst (CollectFromReader exact \<lparr>tokens = [''time.up=1'', ''foo.bar=1''], scanErr = None\<rparr>)
                 = sent @ [ConstHistogram unboundHistogram 0 0 []])"
proof -
  have kv1: "Split ''time.up=1'' CHR ''='' = [''time.up'', ''1'']" by simp
  have kv2: "Split ''foo.bar=1'' CHR ''='' = [''foo.bar'', ''1'']" by simp
  have n2: "list_all (\<lambda>m. FindStringSubmatch (pattern m) ''foo.bar'' = None) unboundMetrics"
    by (rule catalog_first_char) simp
  have h1: "FindStringSubmatch histogramPattern ''time.up'' = None"
    by (rule histogram_first_char) simp
  have h2: "FindStringSubmatch histogramPattern ''foo.bar'' = None"
    by (rule histogram_first_char) simp
  have run: "scan_loop exact [''time.up=1'', ''foo.bar=1''] (start exact)
      = ([ConstMetric
             \<lparr>fqName = ''unbound_time_up_seconds_total'',
              helpText = ''Uptime since server boot in seconds.'',
              variableLabels = []\<rparr>
             CounterValue 1 []], Ok (start exact))"
    by (simp add: time_up_line_exact scan_loop_dropped [OF kv2 n2 h2])
  have ok: "snd (CollectFromReader exact \<lparr>tokens = [''time.up=1'', ''foo.bar=1''], scanErr = None\<rparr>) = Ok ()"
    by (simp add: CollectFromReader_scan run)
  have none: "recognised exact [''time.up=1'', ''foo.bar=1''] = []"
    by (simp add: recognised_Cons bucket_line_no_match [OF kv1 h1] bucket_line_no_match [OF kv2 h2])
       (simp add: recognised_def)
  from empty_histogram [of exact "[''time.up=1'', ''foo.bar=1'']", THEN conjunct2, THEN mp, OF conjI, OF ok none]
  have "\<exists>sent. fst (CollectFromReader exact \<lparr>tokens = [''time.up=1'', ''foo.bar=1''], scanErr = None\<rparr>)
                 = sent @ [ConstHistogram unboundHistogram 0 0 []]"
    by (auto simp: exact_fields)
  with ok none show ?thesis by simp
qed

text \<open>
  The claim as it was stated fails on a stream that has no histogram line and does not
  succeed: nothing is sent, and no histogram.
\<close>

theorem empty_histogram_counterexample:
  "recognised exact [''garbage''] = []
   \<and> CollectFromReader exact \<lparr>tokens = [''garbage''], scanErr = None\<rparr>
     = ([], Err (NotKeyValue ''garbage''))"
proof -
  have "bucket_line exact ''garbage'' = None" by (simp add: bucket_line_def)
  then have "recognised exact [''garbage''] = []"
    by (simp add: recognised_Cons) (simp add: recognised_def)
  moreover have "CollectFromReader exact \<lparr>tokens = [''garbage''], scanErr = None\<rparr>
     = ([], Err (NotKeyValue ''garbage''))"
    unfolding CollectFromReader_scan by (simp add: scan_loop_not_kv)
  ultimately show ?thesis ..
qed

subsection \<open>C10: the bounds of a histogram key\<close>

text \<open>
  C10, as the code has it. A key matches the histogram pattern exactly when it is
  \<^verbatim>\<open>histogram.\<close>, digits, a dot, digits, \<^verbatim>\<open>.to.\<close>, digits, a dot, digits, and the two captures
  are the two bounds. On such a capture \<^verbatim>\<open>ParseFloat\<close> never fails on the syntax: it
  returns the rounded value and no error when the decimal value is below
  \<open>2^1024 - 2^970\<close>, and \<^verbatim>\<open>+Inf\<close> with a range error otherwise. The loop does not look at
  that error: a line with a matching key and a count that \<^verbatim>\<open>ParseUint\<close> converts goes on
  to the next line with the accumulator updated from the values that the two calls of
  \<^verbatim>\<open>ParseFloat\<close> returned (so with \<^verbatim>\<open>+Inf\<close> for a bound that is out of range), and the only
  error a line with a matching key returns is the error of \<^verbatim>\<open>ParseUint\<close>. A line whose
  key begins with \<^verbatim>\<open>histogram.\<close> and is not of that shape does not match, never reaches the
  accumulator and is skipped without an error.
\<close>

theorem histogram_bounds:
  "(FindStringSubmatch histogramPattern key = Some matches \<longrightarrow>
      (\<exists>a b c d. digits a \<and> digits b \<and> digits c \<and> digits d
         \<and> key = ''histogram.'' @ a @ ''.'' @ b @ ''.to.'' @ c @ ''.'' @ d
         \<and> matches = [key, a @ ''.'' @ b, c @ ''.'' @ d]
         \<and> ParseFloat fl (matches ! 1) =
             (if dec_value (a, b) < overflow64 then (round64 fl (dec_value (a, b)), None)
              else (pos_inf fl, Some (NumError ''ParseFloat'' (matches ! 1) ErrRange)))
         \<and> ParseFloat fl (matches ! 2) =
             (if dec_value (c, d) < overflow64 then (round64 fl (dec_value (c, d)), None)
              else (pos_inf fl, Some (NumError ''ParseFloat'' (matches ! 2) ErrRange))))
      \<and> (Split line CHR ''='' = [key, val] \<and> ParseUint val = (n, None) \<longrightarrow>
           scan_loop fl (line # rest) h =
             scan_loop fl rest
               \<lparr>histogramCount = histogramCount h + n,
                histogramSum = fadd fl (histogramSum h)
                  (fmul fl (fsub fl (fst (ParseFloat fl (matches ! 2))) (fst (ParseFloat fl (matches ! 1))))
                     (float64 fl n)),
                histogramBuckets = AList.update (fst (ParseFloat fl (matches ! 2))) n (histogramBuckets h)\<rparr>)
      \<and> (Split line CHR ''='' = [key, val] \<and> snd (ParseUint val) \<noteq> None \<longrightarrow>
           (\<exists>k. scan_loop fl (line # rest) h = ([], Err (NumError ''ParseUint'' val k)))))
   \<and> (Split line CHR ''='' = [key, val] \<and> take 10 key = ''histogram.''
       \<and> \<not> (\<exists>a b c d. digits a \<and> digits b \<and> digits c \<and> digits d
                \<and> key = ''histogram.'' @ a @ ''.'' @ b @ ''.to.'' @ c @ ''.'' @ d)
      \<longrightarrow> FindStringSubmatch histogramPattern key = None
          \<and> scan_loop fl (line # rest) h = scan_loop fl rest h)"
proof -
  have 1: "\<exists>a b c d. digits a \<and> digits b \<and> digits c \<and> digits d
         \<and> key = ''histogram.'' @ a @ ''.'' @ b @ ''.to.'' @ c @ ''.'' @ d
         \<and> matches = [key, a @ ''.'' @ b, c @ ''.'' @ d]
         \<and> ParseFloat fl (matches ! 1) =
             (if dec_value (a, b) < overflow64 then (round64 fl (dec_value (a, b)), None)
              else (pos_inf fl, Some (NumError ''ParseFloat'' (matches ! 1) ErrRange)))
         \<and> ParseFloat fl (matches ! 2) =
             (if dec_value (c, d) < overflow64 then (round64 fl (dec_value (c, d)), None)
              else (pos_inf fl, Some (NumError ''ParseFloat'' (matches ! 2) ErrRange)))"
    if "FindStringSubmatch histogramPattern key = Some matches"
  proof -
    from that obtain a b c d where dg: "digits a" "digits b" "digits c" "digits d"
      and key: "key = ''histogram.'' @ a @ ''.'' @ b @ ''.to.'' @ c @ ''.'' @ d"
      and ms: "matches = [key, a @ ''.'' @ b, c @ ''.'' @ d]"
      unfolding FindStringSubmatch_histogram by blast
    have m1: "matches ! 1 = a @ ''.'' @ b" and m2: "matches ! 2 = c @ ''.'' @ d"
      by (simp_all add: ms)
    note p1 = ParseFloat_number [OF dg(1,2), of fl, folded m1]
    note p2 = ParseFloat_number [OF dg(3,4), of fl, folded m2]
    from dg key ms p1 p2 show ?thesis by blast
  qed
  have 2: "FindStringSubmatch histogramPattern key = None
          \<and> scan_loop fl (line # rest) h = scan_loop fl rest h"
    if kv: "Split line CHR ''='' = [key, val]" and k: "take 10 key = ''histogram.''"
      and n: "\<not> (\<exists>a b c d. digits a \<and> digits b \<and> digits c \<and> digits d
                \<and> key = ''histogram.'' @ a @ ''.'' @ b @ ''.to.'' @ c @ ''.'' @ d)"
  proof -
    have m: "FindStringSubmatch histogramPattern key = None"
    proof (cases "FindStringSubmatch histogramPattern key")
      case None
      then show ?thesis .
    next
      case (Some ms)
      with n show ?thesis unfolding FindStringSubmatch_histogram by blast
    qed
    with bucket_like_dropped [OF kv k m] show ?thesis by simp
  qed
  have 3: "\<exists>k. scan_loop fl (line # rest) h = ([], Err (NumError ''ParseUint'' val k))"
    if "FindStringSubmatch histogramPattern key = Some matches"
      and "Split line CHR ''='' = [key, val]" and "snd (ParseUint val) \<noteq> None"
  proof -
    from that(1) have "FindStringSubmatch histogramPattern key \<noteq> None" by simp
    from histogram_count_error [OF that(2) this that(3)] show ?thesis .
  qed
  show ?thesis
  proof (intro conjI impI)
    assume "FindStringSubmatch histogramPattern key = Some matches"
    then show "\<exists>a b c d. digits a \<and> digits b \<and> digits c \<and> digits d
         \<and> key = ''histogram.'' @ a @ ''.'' @ b @ ''.to.'' @ c @ ''.'' @ d
         \<and> matches = [key, a @ ''.'' @ b, c @ ''.'' @ d]
         \<and> ParseFloat fl (matches ! 1) =
             (if dec_value (a, b) < overflow64 then (round64 fl (dec_value (a, b)), None)
              else (pos_inf fl, Some (NumError ''ParseFloat'' (matches ! 1) ErrRange)))
         \<and> ParseFloat fl (matches ! 2) =
             (if dec_value (c, d) < overflow64 then (round64 fl (dec_value (c, d)), None)
              else (pos_inf fl, Some (NumError ''ParseFloat'' (matches ! 2) ErrRange)))"
      by (rule 1)
  next
    assume "FindStringSubmatch histogramPattern key = Some matches"
      and "Split line CHR ''='' = [key, val] \<and> ParseUint val = (n, None)"
    then show "scan_loop fl (line # rest) h =
             scan_loop fl rest
               \<lparr>histogramCount = histogramCount h + n,
                histogramSum = fadd fl (histogramSum h)
                  (fmul fl (fsub fl (fst (ParseFloat fl (matches ! 2))) (fst (ParseFloat fl (matches ! 1))))
                     (float64 fl n)),
                histogramBuckets = AList.update (fst (ParseFloat fl (matches ! 2))) n (histogramBuckets h)\<rparr>"
      using matching_key_step by blast
  next
    assume "FindStringSubmatch histogramPattern key = Some matches"
      and "Split line CHR ''='' = [key, val] \<and> snd (ParseUint val) \<noteq> None"
    then show "\<exists>k. scan_loop fl (line # rest) h = ([], Err (NumError ''ParseUint'' val k))"
      using 3 by blast
  next
    assume "Split line CHR ''='' = [key, val] \<and> take 10 key = ''histogram.''
       \<and> \<not> (\<exists>a b c d. digits a \<and> digits b \<and> digits c \<and> digits d
                \<and> key = ''histogram.'' @ a @ ''.'' @ b @ ''.to.'' @ c @ ''.'' @ d)"
    then show "FindStringSubmatch histogramPattern key = None" using 2 by blast
  next
    assume "Split line CHR ''='' = [key, val] \<and> take 10 key = ''histogram.''
       \<and> \<not> (\<exists>a b c d. digits a \<and> digits b \<and> digits c \<and> digits d
                \<and> key = ''histogram.'' @ a @ ''.'' @ b @ ''.to.'' @ c @ ''.'' @ d)"
    then show "scan_loop fl (line # rest) h = scan_loop fl rest h" using 2 by blast
  qed
qed

text \<open>
  The key \<^verbatim>\<open>histogram.0.0.to.1.0\<close> with the counts \<^verbatim>\<open>2\<close> and \<^verbatim>\<open>x\<close>, and the line
  \<^verbatim>\<open>histogram.abc.to.1.0=5\<close>.
\<close>

theorem histogram_bounds_witness:
  "FindStringSubmatch histogramPattern ''histogram.0.0.to.1.0''
     = Some [''histogram.0.0.to.1.0'', ''0.0'', ''1.0'']
   \<and> (\<exists>a b c d. digits a \<and> digits b \<and> digits c \<and> digits d
         \<and> [''histogram.0.0.to.1.0'', ''0.0'', ''1.0''] = [''histogram.0.0.to.1.0'', a @ ''.'' @ b, c @ ''.'' @ d]
         \<and> ParseFloat exact ''0.0'' =
             (if dec_value (a, b) < overflow64 then (dec_value (a, b), None)
              else (2 ^ 1024, Some (NumError ''ParseFloat'' ''0.0'' ErrRange)))
         \<and> ParseFloat exact ''1.0'' =
             (if dec_value (c, d) < overflow64 then (dec_value (c, d), None)
              else (2 ^ 1024, Some (NumError ''ParseFloat'' ''1.0'' ErrRange))))
   \<and> ParseFloat exact ''0.0'' = (0, None)
   \<and> ParseFloat exact ''1.0'' = (1, None)
   \<and> Split ''histogram.0.0.to.1.0=2'' CHR ''='' = [''histogram.0.0.to.1.0'', ''2'']
   \<and> ParseUint ''2'' = (2, None)
   \<and> scan_loop exact [''histogram.0.0.to.1.0=2''] (start exact)
       = ([], Ok \<lparr>histogramCount = 2, histogramSum = 2, histogramBuckets = [(1, 2)]\<rparr>)
   \<and> Split ''histogram.0.0.to.1.0=x'' CHR ''='' = [''histogram.0.0.to.1.0'', ''x'']
   \<and> snd (ParseUint ''x'') \<noteq> None
   \<and> (\<exists>k. scan_loop exact [''histogram.0.0.to.1.0=x''] (start exact)
             = ([], Err (NumError ''ParseUint'' ''x'' k)))
   \<and> Split ''histogram.abc.to.1.0=5'' CHR ''='' = [''histogram.abc.to.1.0'', ''5'']
   \<and> FindStringSubmatch histogramPattern ''histogram.abc.to.1.0'' = None
   \<and> scan_loop exact [''histogram.abc.to.1.0=5''] (start exact) = ([], Ok (start exact))"
proof -
  let ?key = "''histogram.0.0.to.1.0''"
  let ?ms = "[''histogram.0.0.to.1.0'', ''0.0'', ''1.0'']"
  note T = histogram_bounds [where key = ?key and matches = ?ms and fl = exact
      and line = "''histogram.0.0.to.1.0=2''" and val = "''2''" and n = 2
      and rest = "[]" and h = "start exact",
      THEN conjunct1, THEN mp, OF histogram_keys(1)]
  note U = histogram_bounds [where key = ?key and matches = ?ms and fl = exact
      and line = "''histogram.0.0.to.1.0=x''" and val = "''x''"
      and rest = "[]" and h = "start exact",
      THEN conjunct1, THEN mp, OF histogram_keys(1)]
  from T [THEN conjunct1] obtain a b c d where dg: "digits a" "digits b" "digits c" "digits d"
    and ms: "?ms = [?key, a @ ''.'' @ b, c @ ''.'' @ d]"
    and p1: "ParseFloat exact (?ms ! 1) =
             (if dec_value (a, b) < overflow64 then (round64 exact (dec_value (a, b)), None)
              else (pos_inf exact, Some (NumError ''ParseFloat'' (?ms ! 1) ErrRange)))"
    and p2: "ParseFloat exact (?ms ! 2) =
             (if dec_value (c, d) < overflow64 then (round64 exact (dec_value (c, d)), None)
              else (pos_inf exact, Some (NumError ''ParseFloat'' (?ms ! 2) ErrRange)))"
    by blast
  from p1 have p1': "ParseFloat exact ''0.0'' =
             (if dec_value (a, b) < overflow64 then (dec_value (a, b), None)
              else (2 ^ 1024, Some (NumError ''ParseFloat'' ''0.0'' ErrRange)))"
    by (simp add: exact_fields)
  from p2 have p2': "ParseFloat exact ''1.0'' =
             (if dec_value (c, d) < overflow64 then (dec_value (c, d), None)
              else (2 ^ 1024, Some (NumError ''ParseFloat'' ''1.0'' ErrRange)))"
    by (simp add: exact_fields)
  from dg ms p1' p2' have A: "\<exists>a b c d. digits a \<and> digits b \<and> digits c \<and> digits d
         \<and> ?ms = [?key, a @ ''.'' @ b, c @ ''.'' @ d]
         \<and> ParseFloat exact ''0.0'' =
             (if dec_value (a, b) < overflow64 then (dec_value (a, b), None)
              else (2 ^ 1024, Some (NumError ''ParseFloat'' ''0.0'' ErrRange)))
         \<and> ParseFloat exact ''1.0'' =
             (if dec_value (c, d) < overflow64 then (dec_value (c, d), None)
              else (2 ^ 1024, Some (NumError ''ParseFloat'' ''1.0'' ErrRange)))"
    by blast
  have kv2: "Split ''histogram.0.0.to.1.0=2'' CHR ''='' = [?key, ''2'']" by simp
  note S = T [THEN conjunct2, THEN conjunct1, THEN mp, OF conjI, OF kv2 ParseUint_values(1)]
  have acc: "scan_loop exact [''histogram.0.0.to.1.0=2''] (start exact)
       = ([], Ok \<lparr>histogramCount = 2, histogramSum = 2, histogramBuckets = [(1, 2)]\<rparr>)"
    unfolding S by (simp add: ParseFloat_exact_values start_exact exact_fields float64_def)
  have kvx: "Split ''histogram.0.0.to.1.0=x'' CHR ''='' = [?key, ''x'']" by simp
  have px: "snd (ParseUint ''x'') \<noteq> None" by (simp add: ParseUint_def is_digit_def)
  note E = U [THEN conjunct2, THEN conjunct2, THEN mp, OF conjI, OF kvx px]
  have kv: "Split ''histogram.abc.to.1.0=5'' CHR ''='' = [''histogram.abc.to.1.0'', ''5'']" by simp
  have k: "take 10 ''histogram.abc.to.1.0'' = ''histogram.''" by simp
  have m: "FindStringSubmatch histogramPattern ''histogram.abc.to.1.0'' = None"
    by (simp add: FindStringSubmatch_def histogramPattern_def str_def is_digit_def)
  have n: "\<not> (\<exists>a b c d. digits a \<and> digits b \<and> digits c \<and> digits d
                \<and> ''histogram.abc.to.1.0'' = ''histogram.'' @ a @ ''.'' @ b @ ''.to.'' @ c @ ''.'' @ d)"
  proof
    assume "\<exists>a b c d. digits a \<and> digits b \<and> digits c \<and> digits d
                \<and> ''histogram.abc.to.1.0'' = ''histogram.'' @ a @ ''.'' @ b @ ''.to.'' @ c @ ''.'' @ d"
    then have "\<exists>ms. FindStringSubmatch histogramPattern ''histogram.abc.to.1.0'' = Some ms"
      unfolding FindStringSubmatch_histogram by blast
    with m show False by simp
  qed
  note T2 = histogram_bounds [where key = "''histogram.abc.to.1.0''" and line = "''histogram.abc.to.1.0=5''"
      and val = "''5''" and fl = exact and rest = "[]" and h = "start exact",
      THEN conjunct2, THEN mp, OF conjI, OF kv conjI, OF k n]
  from T2 have B: "scan_loop exact [''histogram.abc.to.1.0=5''] (start exact) = ([], Ok (start exact))"
    by simp
  show ?thesis
    by (rule conjI [OF histogram_keys(1) conjI [OF A conjI [OF ParseFloat_exact_values(1)
          conjI [OF ParseFloat_exact_values(3) conjI [OF kv2 conjI [OF ParseUint_values(1)
          conjI [OF acc conjI [OF kvx conjI [OF px conjI [OF E conjI [OF kv conjI [OF m B]]]]]]]]]]]])
qed

text \<open>
  The claim as it was stated fails on a bound that is too large for \<^verbatim>\<open>float64\<close>: the key
  with the upper bound 1 followed by 309 zeros, a dot and a zero matches the pattern, and
  the conversion of that bound returns \<^verbatim>\<open>+Inf\<close> and a range error. The line with that key
  and the count 5 is a recognised line with the upper bound \<^verbatim>\<open>+Inf\<close>, and the scrape
  returns no error.
\<close>

theorem histogram_bounds_counterexample:
  "FindStringSubmatch histogramPattern (''histogram.0.0.to.1'' @ replicate 309 CHR ''0'' @ ''.0'')
     = Some [''histogram.0.0.to.1'' @ replicate 309 CHR ''0'' @ ''.0'', ''0.0'',
             ''1'' @ replicate 309 CHR ''0'' @ ''.0'']
   \<and> ParseFloat exact (''1'' @ replicate 309 CHR ''0'' @ ''.0'')
     = (pos_inf exact, Some (NumError ''ParseFloat'' (''1'' @ replicate 309 CHR ''0'' @ ''.0'') ErrRange))
   \<and> recognised exact [''histogram.0.0.to.1'' @ replicate 309 CHR ''0'' @ ''.0=5'']
     = [(0, pos_inf exact, 5)]
   \<and> snd (CollectFromReader exact
        \<lparr>tokens = [''histogram.0.0.to.1'' @ replicate 309 CHR ''0'' @ ''.0=5''], scanErr = None\<rparr>)
     = Ok ()"
proof -
  let ?c = "''1'' @ replicate 309 CHR ''0''"
  let ?key = "''histogram.0.0.to.1'' @ replicate 309 CHR ''0'' @ ''.0''"
  let ?hi = "''1'' @ replicate 309 CHR ''0'' @ ''.0''"
  let ?line = "''histogram.0.0.to.1'' @ replicate 309 CHR ''0'' @ ''.0=5''"
  have d0: "digits ''0''" by (simp add: digits_def is_digit_def)
  have dc: "digits ?c" by (rule digits_one_zeros)
  have "FindStringSubmatch histogramPattern (''histogram.'' @ ''0'' @ ''.'' @ ''0'' @ ''.to.'' @ ?c @ ''.'' @ ''0'')
     = Some [''histogram.'' @ ''0'' @ ''.'' @ ''0'' @ ''.to.'' @ ?c @ ''.'' @ ''0'', ''0'' @ ''.'' @ ''0'', ?c @ ''.'' @ ''0'']"
    unfolding FindStringSubmatch_histogram using d0 dc by blast
  then have 1: "FindStringSubmatch histogramPattern ?key = Some [?key, ''0.0'', ?hi]"
    by simp
  have v: "dec_value (?c, ''0'') = 10 ^ 309"
    unfolding dec_value_def fst_conv snd_conv decimal_one_zeros by (simp add: decimal_def digit_val_def)
  have big: "\<not> ((10 :: rat) ^ 309 < overflow64)"
    by (simp add: overflow64_def)
  have "ParseFloat exact (?c @ ''.'' @ ''0'')
     = (pos_inf exact, Some (NumError ''ParseFloat'' (?c @ ''.'' @ ''0'') ErrRange))"
    unfolding ParseFloat_number [OF dc d0] v using big by simp
  then have 2: "ParseFloat exact ?hi = (pos_inf exact, Some (NumError ''ParseFloat'' ?hi ErrRange))"
    by simp
  have "CHR ''='' \<notin> set ?key" by simp
  from Split_at_sep [OF this, of "''5''"] have "Split (?key @ ''=5'') CHR ''='' = [?key, ''5'']"
    by simp
  then have kv: "Split ?line CHR ''='' = [?key, ''5'']" by simp
  note s = bucket_line_step [OF kv 1 ParseUint_values(4), of exact]
  have rec: "recognised exact [?line] = [(0, pos_inf exact, 5)]"
    unfolding recognised_Cons s [THEN conjunct2] 2 ParseFloat_exact_values fst_conv
    by (simp add: recognised_def map_filter_simps)
  have sl: "scan_loop exact [?line] (start exact)
      = ([], Ok (observe exact (start exact) (0, pos_inf exact, 5)))"
    unfolding s [THEN conjunct1] 2 ParseFloat_exact_values fst_conv by simp
  have run: "snd (CollectFromReader exact \<lparr>tokens = [?line], scanErr = None\<rparr>) = Ok ()"
    unfolding CollectFromReader_scan Reader.select_convs sl by simp
  show ?thesis by (rule conjI [OF 1 conjI [OF 2 conjI [OF rec run]]])
qed

end
